theory Spec2Isabelle
  imports Complex_Main
begin

section \<open>Linear regression by sufficient statistics: the data model\<close>

text \<open>
  The repository holds two programs: \<^verbatim>\<open>lr/lr.py\<close>, the map-reduce job
  \<^verbatim>\<open>LinearRegressionTS\<close>, and \<^verbatim>\<open>lr/lr_norm.py\<close>, the single-process class
  \<^verbatim>\<open>LinearRegression\<close>. Both accumulate the matrix \<^verbatim>\<open>x_t_x\<close>, the vector
  \<^verbatim>\<open>x_t_y\<close> and the counter \<^verbatim>\<open>counts\<close>, and solve the normal equations through
  a Cholesky factor.

  Numbers: numpy's float64 values are modelled by real numbers, and the arithmetic the
  code writes down is carried out exactly, with one exception: the sums of the reducer
  are given a second time with float64 addition (the exact sum, rounded), because the
  order of these sums matters only through rounding. Overflow, underflow, NaN, infinities
  and signed zeros are outside this model. The exact model of \<^verbatim>\<open>np.linalg.cholesky\<close>
  and \<^verbatim>\<open>np.linalg.solve\<close> says what these compute without rounding, not which float64
  numbers LAPACK returns.

  Arrays: a one-dimensional array is a list, a two-dimensional array a list of rows.
\<close>

type_synonym vec = "real list"
type_synonym mat = "real list list"

text \<open>
  Exceptions. \<^verbatim>\<open>ValueError\<close> carries its message; \<^verbatim>\<open>DimensionMismatchError\<close> carries
  the two fields \<^verbatim>\<open>self.exp\<close> and \<^verbatim>\<open>self.obs\<close> of \<^verbatim>\<open>lr.py\<close>, in this order;
  \<^verbatim>\<open>LinAlgError\<close> is \<^verbatim>\<open>numpy.linalg.LinAlgError\<close> with its message.
\<close>

datatype error =
    ValueError string
  | IndexError
  | DimensionMismatchError nat nat
  | LinAlgError string

text \<open>
  An instance of either class: the configuration \<^verbatim>\<open>DIMENSION\<close>, \<^verbatim>\<open>BIAS\<close> (class
  attributes in \<^verbatim>\<open>lr.py\<close>, instance attributes in \<^verbatim>\<open>lr_norm.py\<close>) and the three
  accumulators set up by \<^verbatim>\<open>__init__\<close>. \<^verbatim>\<open>DIMENSION\<close> is a natural number; a negative
  dimension is outside the model (\<^verbatim>\<open>np.zeros\<close> raises in \<^verbatim>\<open>__init__\<close> when \<open>n\<close> is
  negative, and \<^verbatim>\<open>dimension=-1\<close> with bias gives an instance that rejects every record).
\<close>

record lr =
  DIMENSION :: nat
  BIAS :: bool
  x_t_x :: mat
  x_t_y :: vec
  counts :: int

subsection \<open>The numpy operations the code calls\<close>

definition np_zeros :: "nat \<Rightarrow> vec" where
  "np_zeros n = replicate n 0"

definition np_zeros2 :: "nat \<Rightarrow> nat \<Rightarrow> mat" where
  "np_zeros2 r c = replicate r (replicate c 0)"

definition np_outer :: "vec \<Rightarrow> vec \<Rightarrow> mat" where
  "np_outer a b = map (\<lambda>ai. map (\<lambda>bj. ai * bj) b) a"

definition smul :: "real \<Rightarrow> vec \<Rightarrow> vec" where
  "smul y x = map (\<lambda>xi. y * xi) x"

text \<open>
  In-place addition \<^verbatim>\<open>a += b\<close>. The program only ever adds arrays of equal shape (the
  accumulators are created with the shape of what is added to them, see \<open>wf_lr\<close>
  below). For operands of different shapes numpy either broadcasts or raises
  \<^verbatim>\<open>ValueError\<close>; broadcasting is not modelled and the model reports the
  \<^verbatim>\<open>ValueError\<close> for every such pair.
\<close>

definition broadcast_error :: error where
  "broadcast_error = ValueError ''operands could not be broadcast together''"

definition np_iadd :: "vec \<Rightarrow> vec \<Rightarrow> error + vec" where
  "np_iadd a b =
     (if length a = length b then Inr (map2 (+) a b) else Inl broadcast_error)"

definition np_iadd2 :: "mat \<Rightarrow> mat \<Rightarrow> error + mat" where
  "np_iadd2 a b =
     (if map length a = map length b then Inr (map2 (map2 (+)) a b)
      else Inl broadcast_error)"

subsection \<open>Reading a line\<close>

text \<open>
  \<^verbatim>\<open>str.strip()\<close> and \<^verbatim>\<open>str.split(",")\<close>. A character is a byte here; the white
  space stripped is Python's ASCII white space (tab, line feed, vertical tab, form feed,
  carriage return, the separators 0x1c to 0x1f, and the blank). The Unicode white space
  beyond ASCII that \<^verbatim>\<open>str.strip()\<close> also removes is outside the model.
\<close>

definition isspace :: "char \<Rightarrow> bool" where
  "isspace c = (c \<in> set [CHR 0x09, CHR 0x0A, CHR 0x0B, CHR 0x0C, CHR 0x0D,
                           CHR 0x1C, CHR 0x1D, CHR 0x1E, CHR 0x1F, CHR '' ''])"

definition strip :: "string \<Rightarrow> string" where
  "strip s = rev (dropWhile isspace (rev (dropWhile isspace s)))"

fun split_comma :: "string \<Rightarrow> string list" where
  "split_comma [] = [[]]"
| "split_comma (c # cs) =
     (if c = CHR '','' then [] # split_comma cs
      else (case split_comma cs of
              [] \<Rightarrow> [[c]]
            | w # ws \<Rightarrow> (c # w) # ws))"

text \<open>
  \<^verbatim>\<open>[float(e) for e in tokens]\<close>: the tokens are converted from left to right and the
  first \<^verbatim>\<open>ValueError\<close> of \<^verbatim>\<open>float\<close> ends the comprehension. Python's built-in
  \<^verbatim>\<open>float\<close> is a parameter \<open>to_float\<close> of the model: it returns the number, or the
  exception \<^verbatim>\<open>float\<close> raises.
\<close>

type_synonym float_conv = "string \<Rightarrow> error + real"

fun floats :: "float_conv \<Rightarrow> string list \<Rightarrow> error + real list" where
  "floats to_float [] = Inr []"
| "floats to_float (e # es) =
     (case to_float e of
        Inl err \<Rightarrow> Inl err
      | Inr v \<Rightarrow> (case floats to_float es of
                    Inl err \<Rightarrow> Inl err
                  | Inr vs \<Rightarrow> Inr (v # vs)))"

text \<open>
  \<^verbatim>\<open>extract_variables\<close>, the same text in both files. \<^verbatim>\<open>data[0]\<close> raises
  \<^verbatim>\<open>IndexError\<close> on an empty list (which \<^verbatim>\<open>split\<close> never returns).
\<close>

definition extract_variables :: "float_conv \<Rightarrow> string \<Rightarrow> error + (real \<times> real list)" where
  "extract_variables to_float line =
     (case floats to_float (split_comma (strip line)) of
        Inl err \<Rightarrow> Inl err
      | Inr data \<Rightarrow> (case data of
                      [] \<Rightarrow> Inl IndexError
                    | y # features \<Rightarrow> Inr (y, features)))"

subsection \<open>Construction\<close>

text \<open>\<^verbatim>\<open>n = self.DIMENSION + int(self.BIAS)\<close>\<close>

definition dim_n :: "lr \<Rightarrow> nat" where
  "dim_n self = DIMENSION self + (if BIAS self then 1 else 0)"

text \<open>\<^verbatim>\<open>LinearRegression.__init__(self, dimension, bias=True)\<close> of \<^verbatim>\<open>lr_norm.py\<close>.\<close>

definition LinearRegression_init :: "nat \<Rightarrow> bool \<Rightarrow> lr" where
  "LinearRegression_init dimension bias =
     (let n = dimension + (if bias then 1 else 0)
      in \<lparr>DIMENSION = dimension, BIAS = bias,
          x_t_x = np_zeros2 n n, x_t_y = np_zeros n, counts = 0\<rparr>)"

text \<open>
  \<^verbatim>\<open>LinearRegressionTS.__init__\<close> of \<^verbatim>\<open>lr.py\<close>, with the class attributes
  \<^verbatim>\<open>DIMENSION = 8\<close> and \<^verbatim>\<open>BIAS = True\<close>.
\<close>

definition LinearRegressionTS_init :: lr where
  "LinearRegressionTS_init =
     (let n = 8 + (if True then 1 else 0)
      in \<lparr>DIMENSION = 8, BIAS = True,
          x_t_x = np_zeros2 n n, x_t_y = np_zeros n, counts = 0\<rparr>)"

subsection \<open>Accumulation\<close>

text \<open>
  A method that mutates \<^verbatim>\<open>self\<close> and may raise returns the exception, if any, together
  with the instance as the call leaves it.

  \<^verbatim>\<open>LinearRegressionTS.mapper_lr(self, _, line)\<close> of \<^verbatim>\<open>lr.py\<close>.
\<close>

definition mapper_lr :: "float_conv \<Rightarrow> lr \<Rightarrow> string \<Rightarrow> error option \<times> lr" where
  "mapper_lr to_float self line =
     (case extract_variables to_float line of
        Inl err \<Rightarrow> (Some err, self)
      | Inr (y, features) \<Rightarrow>
          if length features \<noteq> DIMENSION self
          then (Some (DimensionMismatchError (DIMENSION self) (length features)), self)
          else
            let x = (if BIAS self then features @ [1] else features)
            in (case np_iadd2 (x_t_x self) (np_outer x x) of
                  Inl err \<Rightarrow> (Some err, self)
                | Inr m \<Rightarrow>
                    let self1 = self\<lparr>x_t_x := m\<rparr>
                    in (case np_iadd (x_t_y self1) (smul y x) of
                          Inl err \<Rightarrow> (Some err, self1)
                        | Inr v \<Rightarrow>
                            (None, self1\<lparr>x_t_y := v, counts := counts self1 + 1\<rparr>))))"

text \<open>\<^verbatim>\<open>str(n)\<close> for a non-negative integer, used by the message of \<^verbatim>\<open>lr_norm.py\<close>.\<close>

definition digit_char :: "nat \<Rightarrow> char" where
  "digit_char k = char_of (48 + k)"

fun str_nat :: "nat \<Rightarrow> string" where
  "str_nat n = (if n < 10 then [digit_char n] else str_nat (n div 10) @ [digit_char (n mod 10)])"

declare str_nat.simps [simp del]

text \<open>\<^verbatim>\<open>LinearRegression.process_line(self, line)\<close> of \<^verbatim>\<open>lr_norm.py\<close>.\<close>

definition process_line :: "float_conv \<Rightarrow> lr \<Rightarrow> string \<Rightarrow> error option \<times> lr" where
  "process_line to_float self line =
     (case extract_variables to_float line of
        Inl err \<Rightarrow> (Some err, self)
      | Inr (y, features) \<Rightarrow>
          if length features \<noteq> DIMENSION self
          then (Some (ValueError (''Expected dimension '' @ str_nat (DIMENSION self)
                                   @ '', but got '' @ str_nat (length features))), self)
          else
            let x = (if BIAS self then features @ [1] else features)
            in (case np_iadd2 (x_t_x self) (np_outer x x) of
                  Inl err \<Rightarrow> (Some err, self)
                | Inr m \<Rightarrow>
                    let self1 = self\<lparr>x_t_x := m\<rparr>
                    in (case np_iadd (x_t_y self1) (smul y x) of
                          Inl err \<Rightarrow> (Some err, self1)
                        | Inr v \<Rightarrow>
                            (None, self1\<lparr>x_t_y := v, counts := counts self1 + 1\<rparr>))))"

text \<open>
  The shape the accumulators have from \<^verbatim>\<open>__init__\<close> on: \<^verbatim>\<open>x_t_x\<close> is \<open>n \<times> n\<close> and
  \<^verbatim>\<open>x_t_y\<close> has length \<open>n\<close>, for \<open>n = DIMENSION + int(BIAS)\<close>.
\<close>

definition wf_lr :: "lr \<Rightarrow> bool" where
  "wf_lr self =
     (length (x_t_x self) = dim_n self
      \<and> list_all (\<lambda>row. length row = dim_n self) (x_t_x self)
      \<and> length (x_t_y self) = dim_n self)"

subsection \<open>The map-reduce job of \<^verbatim>\<open>lr.py\<close>: emission and reduction\<close>

text \<open>
  The three pairs \<^verbatim>\<open>("x_t_x", ...)\<close>, \<^verbatim>\<open>("x_t_y", ...)\<close> and \<^verbatim>\<open>("counts", ...)\<close>
  that \<^verbatim>\<open>mapper_lr_final\<close> yields, all under the key \<^verbatim>\<open>1\<close>. The tag is the
  constructor. The reducer skips a pair with any other tag; no mapper yields one.
\<close>

datatype emitted = X_t_x mat | X_t_y vec | Counts int

definition mapper_lr_final :: "lr \<Rightarrow> emitted list" where
  "mapper_lr_final self = [X_t_x (x_t_x self), X_t_y (x_t_y self), Counts (counts self)]"

text \<open>
  The \<^verbatim>\<open>for val in values\<close> loop of \<^verbatim>\<open>reducer_lr\<close> over its three local variables
  \<^verbatim>\<open>x_t_x\<close>, \<^verbatim>\<open>x_t_y\<close> and \<^verbatim>\<open>observations\<close>.
\<close>

fun reducer_loop :: "mat \<times> vec \<times> int \<Rightarrow> emitted list \<Rightarrow> error + (mat \<times> vec \<times> int)" where
  "reducer_loop acc [] = Inr acc"
| "reducer_loop (m, v, observations) (val # values) =
     (case val of
        X_t_x a \<Rightarrow> (case np_iadd2 m a of
                     Inl err \<Rightarrow> Inl err
                   | Inr m' \<Rightarrow> reducer_loop (m', v, observations) values)
      | X_t_y b \<Rightarrow> (case np_iadd v b of
                     Inl err \<Rightarrow> Inl err
                   | Inr v' \<Rightarrow> reducer_loop (m, v', observations) values)
      | Counts c \<Rightarrow> reducer_loop (m, v, observations + c) values)"

text \<open>The loop from its initial values: what the reducer has summed when it calls the solver.\<close>

definition reducer_sum :: "lr \<Rightarrow> emitted list \<Rightarrow> error + (mat \<times> vec \<times> int)" where
  "reducer_sum self values =
     (let n = dim_n self in reducer_loop (np_zeros2 n n, np_zeros n, 0) values)"

text \<open>
  A statistic is the triple of matrix, vector and count. \<open>emit\<close> is the list of pairs
  \<^verbatim>\<open>mapper_lr_final\<close> yields for a mapper that holds it, and \<open>shaped n\<close> says that it has
  the shape \<^verbatim>\<open>__init__\<close> gives for \<open>n = DIMENSION + int(BIAS)\<close>.
\<close>

type_synonym statistic = "mat \<times> vec \<times> int"

definition stat_of :: "lr \<Rightarrow> statistic" where
  "stat_of self = (x_t_x self, x_t_y self, counts self)"

definition emit :: "statistic \<Rightarrow> emitted list" where
  "emit s = (case s of (m, v, c) \<Rightarrow> [X_t_x m, X_t_y v, Counts c])"

definition shaped :: "nat \<Rightarrow> statistic \<Rightarrow> bool" where
  "shaped n s = (case s of (m, v, c) \<Rightarrow>
      length m = n \<and> list_all (\<lambda>row. length row = n) m \<and> length v = n)"

definition zero_stat :: "nat \<Rightarrow> statistic" where
  "zero_stat n = (np_zeros2 n n, np_zeros n, 0)"

text \<open>
  The job has no function that merges two statistics: statistics are merged by the
  reducer's loop. \<open>merge self a b\<close> is what that loop has summed when it has received
  the pairs emitted for \<open>a\<close> and then those emitted for \<open>b\<close>.
\<close>

definition merge :: "lr \<Rightarrow> statistic \<Rightarrow> statistic \<Rightarrow> error + statistic" where
  "merge self a b = reducer_sum self (emit a @ emit b)"

subsection \<open>The reducer's sums in float64\<close>

text \<open>
  A float64 number has a significand of 53 bits: between \<open>2\<^sup>k\<close> and \<open>2\<^sup>k\<^sup>+\<^sup>1\<close> the float64
  numbers are the multiples of \<open>2\<^sup>k\<^sup>-\<^sup>5\<^sup>2\<close>. \<open>round64 x\<close> is the float64 number nearest to
  \<open>x\<close>, a tie going to the even significand (IEEE 754, the default rounding);
  \<open>round_even\<close> rounds the significand to an integer. The exponent is not bounded here:
  overflow to infinity and subnormal numbers are outside the model. \<open>fadd\<close> is the
  addition of two float64 numbers, the exact sum rounded, and \<open>is_f64\<close> says that a real
  number is a float64 number.
\<close>

definition round_even :: "real \<Rightarrow> int" where
  "round_even m =
     (let f = \<lfloor>m\<rfloor>
      in if m - of_int f < 1 / 2 then f
         else if 1 / 2 < m - of_int f then f + 1
         else if even f then f else f + 1)"

definition round64 :: "real \<Rightarrow> real" where
  "round64 x =
     (if x = 0 then 0
      else let k = \<lfloor>log 2 \<bar>x\<bar>\<rfloor>
           in if 52 \<le> k
              then of_int (round_even (x / 2 ^ nat (k - 52))) * 2 ^ nat (k - 52)
              else of_int (round_even (x * 2 ^ nat (52 - k))) / 2 ^ nat (52 - k))"

definition fadd :: "real \<Rightarrow> real \<Rightarrow> real" where
  "fadd a b = round64 (a + b)"









subsection \<open>Linear algebra: \<^verbatim>\<open>np.linalg.cholesky\<close> and \<^verbatim>\<open>np.linalg.solve\<close>\<close>

definition dot :: "vec \<Rightarrow> vec \<Rightarrow> real" where
  "dot a b = sum_list (map2 (*) a b)"

definition np_eye :: "nat \<Rightarrow> mat" where
  "np_eye n = map (\<lambda>i. map (\<lambda>j. if i = j then 1 else 0) [0..<n]) [0..<n]"

definition square :: "mat \<Rightarrow> bool" where
  "square a = list_all (\<lambda>row. length row = length a) a"

definition np_transpose :: "mat \<Rightarrow> mat" where
  "np_transpose a = map (\<lambda>j. map (\<lambda>row. row ! j) a) [0..<(case a of [] \<Rightarrow> 0 | row # _ \<Rightarrow> length row)]"

text \<open>
  \<^verbatim>\<open>np.linalg.cholesky(a)\<close> returns the lower-triangular \<open>L\<close> with \<open>L L\<^sup>T = a\<close>, reading
  the lower triangle of \<open>a\<close>, and raises \<^verbatim>\<open>LinAlgError\<close> when a pivot is not positive.
  The factor is computed row by row. For row \<open>i\<close> of \<open>a\<close> and the rows \<open>ls\<close> of \<open>L\<close>
  already computed, \<open>chol_offdiag\<close> gives the entries left of the diagonal,
  \<open>L\<^sub>i\<^sub>j = (a\<^sub>i\<^sub>j - \<Sum>k<j. L\<^sub>i\<^sub>k L\<^sub>j\<^sub>k) / L\<^sub>j\<^sub>j\<close>, and the pivot is
  \<open>a\<^sub>i\<^sub>i - \<Sum>k<i. L\<^sub>i\<^sub>k\<^sup>2\<close>. In exact arithmetic every order of evaluation that LAPACK
  may use gives these same entries and stops at the same pivot.
\<close>

definition chol_offdiag :: "mat \<Rightarrow> vec \<Rightarrow> vec" where
  "chol_offdiag ls ai =
     foldl (\<lambda>l (lj, aij). l @ [(aij - dot (take (length l) lj) l) / lj ! length l]) [] (zip ls ai)"

definition not_positive_definite :: error where
  "not_positive_definite = LinAlgError ''Matrix is not positive definite''"

definition not_square :: error where
  "not_square = LinAlgError ''Last 2 dimensions of the array must be square''"

fun chol_loop :: "nat \<Rightarrow> mat \<Rightarrow> mat \<Rightarrow> error + mat" where
  "chol_loop n ls [] = Inr ls"
| "chol_loop n ls (ai # rest) =
     (let i = length ls;
          l = chol_offdiag ls ai;
          d = ai ! i - dot l l
      in if d \<le> 0 then Inl not_positive_definite
         else chol_loop n (ls @ [l @ [sqrt d] @ replicate (n - i - 1) 0]) rest)"

definition np_linalg_cholesky :: "mat \<Rightarrow> error + mat" where
  "np_linalg_cholesky a = (if square a then chol_loop (length a) [] a else Inl not_square)"

text \<open>
  \<^verbatim>\<open>np.linalg.solve(a, b)\<close> is LAPACK's \<^verbatim>\<open>gesv\<close>: Gaussian elimination with partial
  pivoting, then substitution; \<^verbatim>\<open>LinAlgError\<close> when the pivot column is zero.
  \<open>argmax_abs\<close> is the first index of an entry of largest absolute value. \<open>gesv n rows\<close>
  solves \<open>n\<close> equations in \<open>n\<close> unknowns, each equation a row of coefficients with its
  right-hand side: it swaps the pivot row to the front, eliminates the first unknown from
  the other rows, solves these, and substitutes back.
\<close>

fun argmax_abs :: "real list \<Rightarrow> nat" where
  "argmax_abs [] = 0"
| "argmax_abs [x] = 0"
| "argmax_abs (x # xs) = (let k = argmax_abs xs in if \<bar>xs ! k\<bar> > \<bar>x\<bar> then Suc k else 0)"

definition singular_matrix :: error where
  "singular_matrix = LinAlgError ''Singular matrix''"

fun gesv :: "nat \<Rightarrow> (vec \<times> real) list \<Rightarrow> error + vec" where
  "gesv 0 rows = Inr []"
| "gesv (Suc n) rows =
     (let p = argmax_abs (map (\<lambda>(r, b). hd r) rows);
          (pr, pb) = rows ! p
      in if hd pr = 0 then Inl singular_matrix
         else
           let others = tl (rows[p := rows ! 0]);
               reduced = map (\<lambda>(r, b). let f = hd r / hd pr
                                        in (map2 (\<lambda>a c. a - f * c) (tl r) (tl pr), b - f * pb))
                             others
           in (case gesv n reduced of
                 Inl err \<Rightarrow> Inl err
               | Inr xs \<Rightarrow> Inr ((pb - dot (tl pr) xs) / hd pr # xs)))"

definition np_linalg_solve :: "mat \<Rightarrow> vec \<Rightarrow> error + vec" where
  "np_linalg_solve a b =
     (if \<not> square a then Inl not_square
      else if length b \<noteq> length a then Inl broadcast_error
      else gesv (length a) (zip a b))"

subsection \<open>Solving the normal equations\<close>

text \<open>
  \<^verbatim>\<open>cholesky_solution_linear_regression(x_t_x, x_t_y, regularization=1e-10)\<close> of
  \<^verbatim>\<open>lr.py\<close>. Its first statement, \<^verbatim>\<open>x_t_x += np.eye(x_t_x.shape[0]) * regularization\<close>,
  updates the caller's array in place, so the function returns a pair: what the call
  returns or raises, and the caller's array \<^verbatim>\<open>x_t_x\<close> as the call leaves it.
\<close>

definition default_regularization :: real where
  "default_regularization = 1 / 10 ^ 10"

definition cholesky_solution_linear_regression :: "mat \<Rightarrow> vec \<Rightarrow> real \<Rightarrow> (error + vec) \<times> mat" where
  "cholesky_solution_linear_regression x_t_x0 x_t_y0 regularization =
     (case np_iadd2 x_t_x0 (map (map (\<lambda>e. e * regularization)) (np_eye (length x_t_x0))) of
        Inl err \<Rightarrow> (Inl err, x_t_x0)
      | Inr x_t_x1 \<Rightarrow>
          (case np_linalg_cholesky x_t_x1 of
             Inl err \<Rightarrow> (Inl err, x_t_x1)
           | Inr L \<Rightarrow>
               (case np_linalg_solve L x_t_y0 of
                  Inl err \<Rightarrow> (Inl err, x_t_x1)
                | Inr z \<Rightarrow>
                    (case np_linalg_solve (np_transpose L) z of
                       Inl err \<Rightarrow> (Inl err, x_t_x1)
                     | Inr theta \<Rightarrow> (Inr theta, x_t_x1)))))"

text \<open>
  \<^verbatim>\<open>reducer_lr(self, key, values)\<close> of \<^verbatim>\<open>lr.py\<close>: the loop, then the solver with its
  default \<^verbatim>\<open>regularization\<close>. The result is the list \<^verbatim>\<open>betas\<close> that is JSON-encoded.
\<close>

definition reducer_lr :: "lr \<Rightarrow> emitted list \<Rightarrow> error + vec" where
  "reducer_lr self values =
     (case reducer_sum self values of
        Inl err \<Rightarrow> Inl err
      | Inr (m, v, observations) \<Rightarrow>
          fst (cholesky_solution_linear_regression m v default_regularization))"

text \<open>
  \<^verbatim>\<open>LinearRegression.cholesky_solution_linear_regression(self)\<close> of \<^verbatim>\<open>lr_norm.py\<close>. It
  reads \<^verbatim>\<open>self.x_t_x\<close> and \<^verbatim>\<open>self.x_t_y\<close> and assigns nothing.
\<close>

definition LinearRegression_cholesky_solution :: "lr \<Rightarrow> error + vec" where
  "LinearRegression_cholesky_solution self =
     (case np_linalg_cholesky (x_t_x self) of
        Inl err \<Rightarrow> Inl err
      | Inr L \<Rightarrow>
          (case np_linalg_solve L (x_t_y self) of
             Inl err \<Rightarrow> Inl err
           | Inr y \<Rightarrow> np_linalg_solve (np_transpose L) y))"

subsection \<open>The two entry points\<close>

text \<open>
  A method applied to the lines of the input in order; the first exception ends the run.
\<close>

fun for_each_line :: "(lr \<Rightarrow> string \<Rightarrow> error option \<times> lr) \<Rightarrow> lr \<Rightarrow> string list \<Rightarrow> error option \<times> lr" where
  "for_each_line step self [] = (None, self)"
| "for_each_line step self (line # lines) =
     (case step self line of
        (Some err, self1) \<Rightarrow> (Some err, self1)
      | (None, self1) \<Rightarrow> for_each_line step self1 lines)"

text \<open>\<^verbatim>\<open>LinearRegression.run(self, file_path)\<close> of \<^verbatim>\<open>lr_norm.py\<close>, on the lines of the file.\<close>

definition run :: "float_conv \<Rightarrow> lr \<Rightarrow> string list \<Rightarrow> error + vec" where
  "run to_float self lines =
     (case for_each_line (process_line to_float) self lines of
        (Some err, self1) \<Rightarrow> Inl err
      | (None, self1) \<Rightarrow> LinearRegression_cholesky_solution self1)"

text \<open>
  The job of \<^verbatim>\<open>lr.py\<close> as \<^verbatim>\<open>steps\<close> declares it, run with one partition: one mapper
  instance sees every line (\<^verbatim>\<open>mapper\<close>), then emits (\<^verbatim>\<open>mapper_final\<close>), and the
  reducer receives what it emitted.
\<close>

definition run_job :: "float_conv \<Rightarrow> string list \<Rightarrow> error + vec" where
  "run_job to_float lines =
     (case for_each_line (mapper_lr to_float) LinearRegressionTS_init lines of
        (Some err, self1) \<Rightarrow> Inl err
      | (None, self1) \<Rightarrow> reducer_lr LinearRegressionTS_init (mapper_lr_final self1))"

text \<open>
  Two outcomes of accumulating the same lines are alike when they are the same, or when
  one is the \<^verbatim>\<open>DimensionMismatchError\<close> of \<^verbatim>\<open>lr.py\<close> and the other the
  \<^verbatim>\<open>ValueError\<close> \<^verbatim>\<open>lr_norm.py\<close> raises for the same two numbers.
\<close>

definition same_failure :: "error option \<Rightarrow> error option \<Rightarrow> bool" where
  "same_failure e1 e2 =
     (e1 = e2 \<or> (\<exists>d k. e1 = Some (DimensionMismatchError d k)
                     \<and> e2 = Some (ValueError (''Expected dimension '' @ str_nat d
                                                @ '', but got '' @ str_nat k))))"

subsection \<open>Notions used to state what the solver computes\<close>

text \<open>
  A system of \<open>n\<close> equations in \<open>n\<close> unknowns, as \<open>gesv\<close> takes it; a vector that solves
  it; and a system whose homogeneous form has the zero vector as its only solution.
\<close>

definition wf_rows :: "nat \<Rightarrow> (vec \<times> real) list \<Rightarrow> bool" where
  "wf_rows n rows = (length rows = n \<and> (\<forall>(r, b) \<in> set rows. length r = n))"

definition solves :: "(vec \<times> real) list \<Rightarrow> vec \<Rightarrow> bool" where
  "solves rows x = (\<forall>(r, b) \<in> set rows. dot r x = b)"

definition nonsingular :: "nat \<Rightarrow> (vec \<times> real) list \<Rightarrow> bool" where
  "nonsingular n rows =
     (\<forall>x. length x = n \<and> (\<forall>(r, b) \<in> set rows. dot r x = 0) \<longrightarrow> x = replicate n 0)"

text \<open>An \<open>n \<times> n\<close> lower-triangular matrix with a positive diagonal.\<close>

definition lower_factor :: "nat \<Rightarrow> mat \<Rightarrow> bool" where
  "lower_factor n L =
     (length L = n
      \<and> (\<forall>i < n. length (L ! i) = n \<and> 0 < L ! i ! i \<and> (\<forall>j < n. i < j \<longrightarrow> L ! i ! j = 0)))"

text \<open>
  The invariant of \<open>chol_loop\<close>: the rows \<open>ls\<close> computed so far are rows of a lower
  factor, and their products give the lower triangle of \<open>A\<close>.
\<close>

definition chol_inv :: "nat \<Rightarrow> mat \<Rightarrow> mat \<Rightarrow> bool" where
  "chol_inv n A ls =
     (length ls \<le> n
      \<and> (\<forall>k < length ls. length (ls ! k) = n \<and> 0 < ls ! k ! k
            \<and> (\<forall>j < n. k < j \<longrightarrow> ls ! k ! j = 0)
            \<and> (\<forall>j \<le> k. (\<Sum>m < n. ls ! k ! m * ls ! j ! m) = A ! k ! j)))"

text \<open>
  The quadratic form \<open>x\<^sup>T A x\<close>, symmetry, and positive definiteness: the quadratic form is
  positive at every vector but zero.
\<close>

definition quad_form :: "mat \<Rightarrow> vec \<Rightarrow> real" where
  "quad_form A x = dot x (map (\<lambda>row. dot row x) A)"

definition symmetric :: "mat \<Rightarrow> bool" where
  "symmetric A = (\<forall>i < length A. \<forall>j < length A. A ! i ! j = A ! j ! i)"

definition positive_definite :: "mat \<Rightarrow> bool" where
  "positive_definite A =
     (\<forall>x. length x = length A \<and> x \<noteq> replicate (length A) 0 \<longrightarrow> 0 < quad_form A x)"

subsection \<open>A conversion for examples\<close>

text \<open>
  The examples below need some conversion in place of \<^verbatim>\<open>float\<close>. \<open>float_digits\<close> converts
  a non-empty string of decimal digits to its value, as \<^verbatim>\<open>float\<close> does, and rejects every
  other string with the message \<^verbatim>\<open>float\<close> gives; it is applied below only to strings of
  digits and to strings that \<^verbatim>\<open>float\<close> rejects as well.
\<close>

definition digit_of :: "char \<Rightarrow> nat option" where
  "digit_of c = (let k = of_char c in if (48::nat) \<le> k \<and> k \<le> 57 then Some (k - 48) else None)"

fun digits_value :: "nat \<Rightarrow> string \<Rightarrow> nat option" where
  "digits_value acc [] = Some acc"
| "digits_value acc (c # cs) =
     (case digit_of c of None \<Rightarrow> None | Some d \<Rightarrow> digits_value (10 * acc + d) cs)"

definition float_digits :: float_conv where
  "float_digits s =
     (case (if s = [] then None else digits_value 0 s) of
        Some k \<Rightarrow> Inr (real k)
      | None \<Rightarrow> Inl (ValueError (''could not convert string to float: ''
                                  @ [CHR 0x27] @ s @ [CHR 0x27])))"

section \<open>Accumulation\<close>

subsection \<open>Shapes\<close>

lemma map_length_wf:
  "length A = n \<Longrightarrow> list_all (\<lambda>row. length row = m) A \<Longrightarrow> map length A = replicate n m"
  by (induction A arbitrary: n) auto

lemma map_length_outer: "map length (np_outer a b) = replicate (length a) (length b)"
  by (induction a) (auto simp: np_outer_def)

lemma nth_outer: "i < length a \<Longrightarrow> j < length b \<Longrightarrow> np_outer a b ! i ! j = a ! i * b ! j"
  by (simp add: np_outer_def)

lemma length_outer: "length (np_outer a b) = length a"
  by (simp add: np_outer_def)

lemma length_outer_row: "i < length a \<Longrightarrow> length (np_outer a b ! i) = length b"
  by (simp add: np_outer_def)

lemma np_iadd2_wf:
  assumes "length A = n" "list_all (\<lambda>row. length row = n) A" "length x = n"
  shows "np_iadd2 A (np_outer x x) = Inr (map2 (map2 (+)) A (np_outer x x))"
  using assms by (simp add: np_iadd2_def map_length_wf map_length_outer)

lemma wf_init: "wf_lr (LinearRegression_init d b)"
  by (auto simp: wf_lr_def LinearRegression_init_def dim_n_def np_zeros2_def np_zeros_def
      list_all_iff)

lemma TS_init: "LinearRegressionTS_init = LinearRegression_init 8 True"
  by (simp add: LinearRegressionTS_init_def LinearRegression_init_def)

subsection \<open>One record\<close>

lemma mapper_lr_ok:
  assumes wf: "wf_lr self"
    and ex: "extract_variables to_float line = Inr (y, features)"
    and len: "length features = DIMENSION self"
  shows "mapper_lr to_float self line =
     (None, self\<lparr>x_t_x := map2 (map2 (+)) (x_t_x self)
                      (np_outer (if BIAS self then features @ [1] else features)
                                (if BIAS self then features @ [1] else features)),
                  x_t_y := map2 (+) (x_t_y self)
                      (smul y (if BIAS self then features @ [1] else features)),
                  counts := counts self + 1\<rparr>)"
proof -
  let ?x = "if BIAS self then features @ [1] else features"
  have lx: "length ?x = dim_n self" using len by (simp add: dim_n_def)
  have m: "np_iadd2 (x_t_x self) (np_outer ?x ?x)
      = Inr (map2 (map2 (+)) (x_t_x self) (np_outer ?x ?x))"
    using wf lx by (intro np_iadd2_wf[where n = "dim_n self"]) (simp_all add: wf_lr_def)
  have v: "np_iadd (x_t_y self) (smul y ?x) = Inr (map2 (+) (x_t_y self) (smul y ?x))"
    using wf lx by (simp add: np_iadd_def wf_lr_def smul_def)
  show ?thesis
    unfolding mapper_lr_def ex using len m v by (simp add: Let_def)
qed

lemma process_line_ok:
  assumes wf: "wf_lr self"
    and ex: "extract_variables to_float line = Inr (y, features)"
    and len: "length features = DIMENSION self"
  shows "process_line to_float self line =
     (None, self\<lparr>x_t_x := map2 (map2 (+)) (x_t_x self)
                      (np_outer (if BIAS self then features @ [1] else features)
                                (if BIAS self then features @ [1] else features)),
                  x_t_y := map2 (+) (x_t_y self)
                      (smul y (if BIAS self then features @ [1] else features)),
                  counts := counts self + 1\<rparr>)"
proof -
  let ?x = "if BIAS self then features @ [1] else features"
  have lx: "length ?x = dim_n self" using len by (simp add: dim_n_def)
  have m: "np_iadd2 (x_t_x self) (np_outer ?x ?x)
      = Inr (map2 (map2 (+)) (x_t_x self) (np_outer ?x ?x))"
    using wf lx by (intro np_iadd2_wf[where n = "dim_n self"]) (simp_all add: wf_lr_def)
  have v: "np_iadd (x_t_y self) (smul y ?x) = Inr (map2 (+) (x_t_y self) (smul y ?x))"
    using wf lx by (simp add: np_iadd_def wf_lr_def smul_def)
  show ?thesis
    unfolding process_line_def ex using len m v by (simp add: Let_def)
qed

lemma update_entries:
  assumes wf: "wf_lr self" and lx: "length x = dim_n self"
    and upd: "self' = self\<lparr>x_t_x := map2 (map2 (+)) (x_t_x self) (np_outer x x),
                            x_t_y := map2 (+) (x_t_y self) (smul y x),
                            counts := counts self + 1\<rparr>"
  shows "wf_lr self'"
    and "\<forall>i < dim_n self. \<forall>j < dim_n self.
           x_t_x self' ! i ! j = x_t_x self ! i ! j + x ! i * x ! j"
    and "\<forall>i < dim_n self. x_t_y self' ! i = x_t_y self ! i + y * x ! i"
proof -
  let ?n = "dim_n self"
  have lA: "length (x_t_x self) = ?n" and lb: "length (x_t_y self) = ?n"
    and rows: "\<And>i. i < ?n \<Longrightarrow> length (x_t_x self ! i) = ?n"
    using wf by (auto simp: wf_lr_def list_all_length)
  have r: "list_all (\<lambda>row. length row = ?n) (map2 (map2 (+)) (x_t_x self) (np_outer x x))"
    using lA rows lx by (simp add: list_all_length length_outer length_outer_row)
  show "wf_lr self'"
    unfolding upd using lA lb lx r by (simp add: wf_lr_def dim_n_def length_outer smul_def)
  show "\<forall>i < ?n. \<forall>j < ?n. x_t_x self' ! i ! j = x_t_x self ! i ! j + x ! i * x ! j"
    unfolding upd using lA rows lx by (simp add: length_outer length_outer_row nth_outer)
  show "\<forall>i < ?n. x_t_y self' ! i = x_t_y self ! i + y * x ! i"
    unfolding upd using lb lx by (simp add: smul_def)
qed

text \<open>
  C1. A record with label \<open>y\<close> and \<open>DIMENSION\<close> features is accumulated without an
  exception, by \<^verbatim>\<open>mapper_lr\<close> and by \<^verbatim>\<open>process_line\<close> alike: with \<open>x\<close> the features,
  followed by \<open>1\<close> when \<^verbatim>\<open>BIAS\<close> is set, \<open>x\<close> has length \<open>n\<close>, every entry \<open>(i, j)\<close> of
  \<^verbatim>\<open>x_t_x\<close> grows by \<open>x\<^sub>i x\<^sub>j\<close>, every entry \<open>i\<close> of \<^verbatim>\<open>x_t_y\<close> by \<open>y x\<^sub>i\<close>,
  \<^verbatim>\<open>counts\<close> by one, the shapes stay, and the configuration is unchanged.
\<close>

theorem accumulate_update:
  assumes "wf_lr self"
    and "extract_variables to_float line = Inr (y, features)"
    and "length features = DIMENSION self"
    and "x = (if BIAS self then features @ [1] else features)"
    and "self' = snd (mapper_lr to_float self line)"
  shows "fst (mapper_lr to_float self line) = None
     \<and> process_line to_float self line = mapper_lr to_float self line
     \<and> length x = dim_n self
     \<and> (\<forall>i < dim_n self. \<forall>j < dim_n self.
           x_t_x self' ! i ! j = x_t_x self ! i ! j + x ! i * x ! j)
     \<and> (\<forall>i < dim_n self. x_t_y self' ! i = x_t_y self ! i + y * x ! i)
     \<and> counts self' = counts self + 1
     \<and> wf_lr self'
     \<and> DIMENSION self' = DIMENSION self \<and> BIAS self' = BIAS self
     \<and> lr.more self' = lr.more self"
proof -
  have lx: "length x = dim_n self"
    using assms(3,4) by (simp add: dim_n_def)
  have upd: "self' = self\<lparr>x_t_x := map2 (map2 (+)) (x_t_x self) (np_outer x x),
                          x_t_y := map2 (+) (x_t_y self) (smul y x),
                          counts := counts self + 1\<rparr>"
    unfolding assms(5) mapper_lr_ok[OF assms(1-3)] assms(4) by simp
  have "fst (mapper_lr to_float self line) = None"
    and "process_line to_float self line = mapper_lr to_float self line"
    unfolding mapper_lr_ok[OF assms(1-3)] process_line_ok[OF assms(1-3)] by simp_all
  moreover have "counts self' = counts self + 1" "DIMENSION self' = DIMENSION self"
    "BIAS self' = BIAS self" "lr.more self' = lr.more self"
    unfolding upd by simp_all
  ultimately show ?thesis
    using update_entries[OF assms(1) lx upd] lx by blast
qed

lemma extract_5_1_2: "extract_variables float_digits ''5,1,2'' = Inr (5, [1, 2])"
  by (simp add: extract_variables_def strip_def isspace_def float_digits_def digit_of_def)

theorem accumulate_update_witness:
  "wf_lr (LinearRegression_init 2 True)
   \<and> extract_variables float_digits ''5,1,2'' = Inr (5, [1, 2])
   \<and> length [1, 2 :: real] = DIMENSION (LinearRegression_init 2 True)
   \<and> fst (mapper_lr float_digits (LinearRegression_init 2 True) ''5,1,2'') = None
   \<and> process_line float_digits (LinearRegression_init 2 True) ''5,1,2''
       = mapper_lr float_digits (LinearRegression_init 2 True) ''5,1,2''
   \<and> counts (snd (mapper_lr float_digits (LinearRegression_init 2 True) ''5,1,2'')) = 1"
proof -
  have d: "length [1, 2 :: real] = DIMENSION (LinearRegression_init 2 True)"
    by (simp add: LinearRegression_init_def)
  have b: "[1, 2, 1 :: real] = (if BIAS (LinearRegression_init 2 True) then [1, 2] @ [1] else [1, 2])"
    by (simp add: LinearRegression_init_def)
  have c: "counts (LinearRegression_init 2 True) = 0"
    by (simp add: LinearRegression_init_def)
  show ?thesis
    using accumulate_update[OF wf_init extract_5_1_2 d b refl] wf_init extract_5_1_2 d c
    by simp
qed

section \<open>Merging\<close>

lemma map2_comm:
  assumes "\<And>x y. f x y = f y x"
  shows "map2 f xs ys = map2 f ys xs"
proof (induction xs arbitrary: ys)
  case Nil
  then show ?case by simp
next
  case (Cons x xs)
  then show ?case using assms by (cases ys) auto
qed

lemma vadd_comm: "map2 (+) (a::vec) b = map2 (+) b a"
  by (rule map2_comm) simp

lemma madd_comm: "map2 (map2 (+)) (a::mat) b = map2 (map2 (+)) b a"
  by (rule map2_comm) (rule vadd_comm)

lemma vadd_zero: "length v = n \<Longrightarrow> map2 (+) (np_zeros n) v = v"
  by (induction v arbitrary: n) (auto simp: np_zeros_def)

lemma madd_zero:
  "length m = n \<Longrightarrow> list_all (\<lambda>row. length row = k) m \<Longrightarrow> map2 (map2 (+)) (np_zeros2 n k) m = m"
proof (induction m arbitrary: n)
  case Nil
  then show ?case by (simp add: np_zeros2_def)
next
  case (Cons r m)
  then obtain n' where n: "n = Suc n'" by (cases n) auto
  have "map2 (+) (replicate k 0) r = r"
    using Cons.prems(2) vadd_zero[of r k] by (simp add: np_zeros_def)
  moreover have "map2 (map2 (+)) (np_zeros2 n' k) m = m"
    using Cons n by simp
  ultimately show ?case by (simp add: n np_zeros2_def)
qed

lemma map_length_zeros2: "map length (np_zeros2 n k) = replicate n k"
  by (simp add: np_zeros2_def)

lemma reducer_loop_emit:
  assumes "map length m = replicate n n" "length v = n" "shaped n (a, b, c)"
  shows "reducer_loop (m, v, obs) (emit (a, b, c) @ values)
           = reducer_loop (map2 (map2 (+)) m a, map2 (+) v b, obs + c) values"
proof -
  have "map length a = replicate n n"
    using assms(3) by (simp add: shaped_def map_length_wf)
  then show ?thesis
    using assms by (simp add: emit_def np_iadd2_def np_iadd_def shaped_def)
qed

lemma merge_sum:
  assumes a: "shaped (dim_n self) (am, av, ac)" and b: "shaped (dim_n self) (bm, bv, bc)"
  shows "merge self (am, av, ac) (bm, bv, bc)
           = Inr (map2 (map2 (+)) am bm, map2 (+) av bv, ac + bc)"
proof -
  let ?n = "dim_n self"
  have 1: "reducer_loop (np_zeros2 ?n ?n, np_zeros ?n, 0) (emit (am, av, ac) @ emit (bm, bv, bc))
      = reducer_loop (map2 (map2 (+)) (np_zeros2 ?n ?n) am, map2 (+) (np_zeros ?n) av, 0 + ac)
          (emit (bm, bv, bc))"
    by (rule reducer_loop_emit[OF _ _ a]) (simp_all add: map_length_zeros2 np_zeros_def)
  have z: "map2 (map2 (+)) (np_zeros2 ?n ?n) am = am" "map2 (+) (np_zeros ?n) av = av"
    using a by (simp_all add: shaped_def madd_zero vadd_zero)
  have 2: "reducer_loop (am, av, ac) (emit (bm, bv, bc) @ [])
      = reducer_loop (map2 (map2 (+)) am bm, map2 (+) av bv, ac + bc) []"
    using a by (intro reducer_loop_emit[OF _ _ b]) (simp_all add: shaped_def map_length_wf)
  show ?thesis
    unfolding merge_def reducer_sum_def Let_def 1 z using 2 by simp
qed

lemma shaped_zero: "shaped n (zero_stat n)"
  by (auto simp: shaped_def zero_stat_def np_zeros2_def np_zeros_def list_all_iff)

lemma dim_n_init: "dim_n (LinearRegression_init d b) = d + (if b then 1 else 0)"
  by (simp add: dim_n_def LinearRegression_init_def)

lemma shaped_ex: "shaped (Suc 0) ([[a]], [b], c)"
  by (simp add: shaped_def)

text \<open>
  C7. The reducer's loop over no pairs leaves the all-zero statistic of the configured
  shape; an instance that has accumulated no line holds, and emits, the all-zero
  statistic; and merging a statistic \<open>S\<close> of the configured shape with the all-zero
  statistic, on either side, gives \<open>S\<close>.
\<close>

theorem merge_zero:
  assumes "shaped (dim_n self) S"
  shows "reducer_sum self [] = Inr (zero_stat (dim_n self))
     \<and> shaped (dim_n self) (zero_stat (dim_n self))
     \<and> for_each_line (mapper_lr to_float) (LinearRegression_init d b) []
          = (None, LinearRegression_init d b)
     \<and> for_each_line (process_line to_float) (LinearRegression_init d b) []
          = (None, LinearRegression_init d b)
     \<and> mapper_lr_final (LinearRegression_init d b)
          = emit (zero_stat (dim_n (LinearRegression_init d b)))
     \<and> stat_of (LinearRegression_init d b) = zero_stat (dim_n (LinearRegression_init d b))
     \<and> merge self S (zero_stat (dim_n self)) = Inr S
     \<and> merge self (zero_stat (dim_n self)) S = Inr S"
proof -
  let ?n = "dim_n self"
  obtain m v c where S: "S = (m, v, c)" by (cases S)
  note s = assms[unfolded S]
  have z: "shaped ?n (np_zeros2 ?n ?n, np_zeros ?n, 0)"
    using shaped_zero[of ?n] by (simp add: zero_stat_def)
  have zl: "map2 (map2 (+)) (np_zeros2 ?n ?n) m = m" "map2 (+) (np_zeros ?n) v = v"
    using s by (simp_all add: shaped_def madd_zero vadd_zero)
  have zr: "map2 (map2 (+)) m (np_zeros2 ?n ?n) = m" "map2 (+) v (np_zeros ?n) = v"
    using zl by (simp_all add: madd_comm[of m] vadd_comm[of v])
  have 1: "merge self S (zero_stat ?n) = Inr S"
    unfolding S zero_stat_def merge_sum[OF s z] zr by simp
  have 2: "merge self (zero_stat ?n) S = Inr S"
    unfolding S zero_stat_def merge_sum[OF z s] zl by simp
  have 3: "reducer_sum self [] = Inr (zero_stat ?n)"
    by (simp add: reducer_sum_def zero_stat_def Let_def)
  have 4: "mapper_lr_final (LinearRegression_init d b)
          = emit (zero_stat (dim_n (LinearRegression_init d b)))"
    by (simp add: mapper_lr_final_def emit_def zero_stat_def LinearRegression_init_def dim_n_def)
  have 5: "stat_of (LinearRegression_init d b) = zero_stat (dim_n (LinearRegression_init d b))"
    by (simp add: stat_of_def zero_stat_def LinearRegression_init_def dim_n_def)
  show ?thesis using 1 2 3 4 5 shaped_zero[of ?n] by simp
qed

theorem merge_zero_witness:
  "shaped (dim_n (LinearRegression_init 0 True)) ([[4]], [6], 2)
   \<and> merge (LinearRegression_init 0 True) ([[4]], [6], 2)
        (zero_stat (dim_n (LinearRegression_init 0 True))) = Inr ([[4]], [6], 2)
   \<and> merge (LinearRegression_init 0 True)
        (zero_stat (dim_n (LinearRegression_init 0 True))) ([[4]], [6], 2) = Inr ([[4]], [6], 2)"
proof -
  have s: "shaped (dim_n (LinearRegression_init 0 True)) ([[4]], [6], 2)"
    by (simp add: dim_n_init shaped_ex)
  show ?thesis
    using merge_zero[OF s] s by simp
qed

section \<open>Merging with float64 sums\<close>

subsection \<open>Rounding\<close>

lemma round_even_int [simp]: "round_even (of_int n) = n"
  by (simp add: round_even_def)

lemma floor_log2:
  assumes "2 ^ k \<le> y" "y < 2 ^ Suc k"
  shows "\<lfloor>log 2 y\<rfloor> = int k"
proof -
  have y: "0 < y" using assms(1) by (smt (verit) zero_less_power)
  have "real k \<le> log 2 y"
    using assms(1) y by (simp add: le_log_iff powr_realpow)
  moreover have "log 2 y < real k + 1"
    using assms(2) y by (simp add: log_less_iff powr_realpow powr_add)
  ultimately show ?thesis by (simp add: floor_eq_iff)
qed

lemma round64_low:
  assumes "2 ^ k \<le> \<bar>x\<bar>" "\<bar>x\<bar> < 2 ^ Suc k" "k \<le> 52"
  shows "round64 x = of_int (round_even (x * 2 ^ (52 - k))) / 2 ^ (52 - k)"
proof -
  have nz: "x \<noteq> 0" using assms(1) by (smt (verit) zero_less_power abs_zero)
  have n: "nat (52 - int k) = 52 - k" using assms(3) by simp
  show ?thesis
  proof (cases "k = 52")
    case True
    then show ?thesis using nz floor_log2[OF assms(1,2)] by (simp add: round64_def)
  next
    case False
    then have "\<not> 52 \<le> int k" using assms(3) by simp
    then show ?thesis using nz floor_log2[OF assms(1,2)] n by (simp add: round64_def Let_def)
  qed
qed



lemma round_even_numeral [simp]: "round_even (numeral n) = numeral n"
  using round_even_int[of "numeral n"] by simp








subsection \<open>The reducer's loop\<close>
























section \<open>Rejected records\<close>

text \<open>
  C8 (as the code has it). A record whose number of features differs from
  \<^verbatim>\<open>DIMENSION\<close> is rejected and the instance is left as it was. \<^verbatim>\<open>mapper_lr\<close> of
  \<^verbatim>\<open>lr.py\<close> raises \<^verbatim>\<open>DimensionMismatchError\<close> with the expected and the observed
  number as its two fields; \<^verbatim>\<open>process_line\<close> of \<^verbatim>\<open>lr_norm.py\<close> raises
  \<^verbatim>\<open>ValueError\<close>, whose message \<^verbatim>\<open>Expected dimension d, but got k\<close> spells both
  numbers.
\<close>

theorem dimension_mismatch:
  assumes "extract_variables to_float line = Inr (y, features)"
    and "length features \<noteq> DIMENSION self"
  shows "mapper_lr to_float self line
           = (Some (DimensionMismatchError (DIMENSION self) (length features)), self)
     \<and> process_line to_float self line
           = (Some (ValueError (''Expected dimension '' @ str_nat (DIMENSION self)
                                 @ '', but got '' @ str_nat (length features))), self)"
  using assms by (simp add: mapper_lr_def process_line_def)

lemma extract_1_2_3_4: "extract_variables float_digits ''1,2,3,4'' = Inr (1, [2, 3, 4])"
  by (simp add: extract_variables_def strip_def isspace_def float_digits_def digit_of_def)

lemma str_nat_8: "str_nat 8 = ''8''"
  by code_simp

lemma str_nat_3: "str_nat (Suc (Suc (Suc 0))) = ''3''"
  by code_simp

theorem dimension_mismatch_witness:
  "extract_variables float_digits ''1,2,3,4'' = Inr (1, [2, 3, 4])
   \<and> length [2, 3, 4 :: real] \<noteq> DIMENSION LinearRegressionTS_init
   \<and> mapper_lr float_digits LinearRegressionTS_init ''1,2,3,4''
        = (Some (DimensionMismatchError 8 3), LinearRegressionTS_init)
   \<and> process_line float_digits LinearRegressionTS_init ''1,2,3,4''
        = (Some (ValueError ''Expected dimension 8, but got 3''), LinearRegressionTS_init)"
proof -
  have d: "length [2, 3, 4 :: real] \<noteq> DIMENSION LinearRegressionTS_init"
    by (simp add: LinearRegressionTS_init_def)
  have e: "DIMENSION LinearRegressionTS_init = 8"
    by (simp add: LinearRegressionTS_init_def)
  show ?thesis
    using dimension_mismatch[OF extract_1_2_3_4 d] extract_1_2_3_4 d
    by (simp add: e str_nat_8 str_nat_3)
qed

text \<open>
  In \<^verbatim>\<open>lr_norm.py\<close> a record with 3 features for \<^verbatim>\<open>dimension=8\<close> does not raise
  \<^verbatim>\<open>DimensionMismatchError\<close>.
\<close>

theorem dimension_mismatch_counterexample:
  "fst (process_line float_digits (LinearRegression_init 8 True) ''1,2,3,4'')
     = Some (ValueError ''Expected dimension 8, but got 3'')
   \<and> fst (process_line float_digits (LinearRegression_init 8 True) ''1,2,3,4'')
     \<noteq> Some (DimensionMismatchError 8 3)"
  by (simp add: process_line_def extract_1_2_3_4 LinearRegression_init_def str_nat_8 str_nat_3)

text \<open>
  C10. When a line does not parse, or parses to a number of features other than
  \<^verbatim>\<open>DIMENSION\<close>, \<^verbatim>\<open>mapper_lr\<close> and \<^verbatim>\<open>process_line\<close> raise and leave the instance,
  and so \<^verbatim>\<open>x_t_x\<close>, \<^verbatim>\<open>x_t_y\<close> and \<^verbatim>\<open>counts\<close>, exactly as it was before the call.
\<close>

theorem failed_accumulate_unchanged:
  assumes "(\<exists>err. extract_variables to_float line = Inl err)
         \<or> (\<exists>y features. extract_variables to_float line = Inr (y, features)
               \<and> length features \<noteq> DIMENSION self)"
  shows "fst (mapper_lr to_float self line) \<noteq> None
     \<and> snd (mapper_lr to_float self line) = self
     \<and> fst (process_line to_float self line) \<noteq> None
     \<and> snd (process_line to_float self line) = self"
  using assms by (auto simp: mapper_lr_def process_line_def)

lemma extract_bad:
  "extract_variables float_digits ''5,abc,2''
     = Inl (ValueError (''could not convert string to float: '' @ [CHR 0x27] @ ''abc'' @ [CHR 0x27]))"
  by (simp add: extract_variables_def strip_def isspace_def float_digits_def digit_of_def)

theorem failed_accumulate_unchanged_witness:
  "extract_variables float_digits ''5,abc,2''
     = Inl (ValueError (''could not convert string to float: '' @ [CHR 0x27] @ ''abc'' @ [CHR 0x27]))
   \<and> fst (mapper_lr float_digits (LinearRegression_init 2 True) ''5,abc,2'') \<noteq> None
   \<and> snd (mapper_lr float_digits (LinearRegression_init 2 True) ''5,abc,2'')
       = LinearRegression_init 2 True
   \<and> snd (process_line float_digits (LinearRegression_init 2 True) ''5,abc,2'')
       = LinearRegression_init 2 True"
proof -
  have h: "(\<exists>err. extract_variables float_digits ''5,abc,2'' = Inl err)
         \<or> (\<exists>y features. extract_variables float_digits ''5,abc,2'' = Inr (y, features)
               \<and> length features \<noteq> DIMENSION (LinearRegression_init 2 True))"
    using extract_bad by simp
  show ?thesis
    using failed_accumulate_unchanged[OF h] extract_bad by simp
qed

lemma wf_fail_unchanged:
  assumes "wf_lr self"
  shows "fst (mapper_lr to_float self line) \<noteq> None \<Longrightarrow> snd (mapper_lr to_float self line) = self"
proof (cases "extract_variables to_float line")
  case (Inl e)
  then show ?thesis by (simp add: mapper_lr_def)
next
  case (Inr p)
  obtain y fs where p: "p = (y, fs)" by (cases p)
  assume f: "fst (mapper_lr to_float self line) \<noteq> None"
  show ?thesis
  proof (cases "length fs = DIMENSION self")
    case True
    then show ?thesis using f mapper_lr_ok[OF assms Inr[unfolded p] True] by simp
  next
    case False
    then show ?thesis using Inr p by (simp add: mapper_lr_def)
  qed
qed

section \<open>Solving\<close>

lemmas solver_defs = cholesky_solution_linear_regression_def np_linalg_cholesky_def square_def
  chol_offdiag_def dot_def np_eye_def np_iadd2_def np_linalg_solve_def np_transpose_def
  LinearRegression_cholesky_solution_def

lemma chol_sol_1x1:
  "cholesky_solution_linear_regression [[a]] [b] reg =
     (if a + reg \<le> 0 then Inl not_positive_definite else Inr [b / (a + reg)], [[a + reg]])"
  by (simp add: solver_defs real_div_sqrt field_simps)

lemma norm_sol_1x1:
  "LinearRegression_cholesky_solution
      \<lparr>DIMENSION = d, BIAS = bi, x_t_x = [[a]], x_t_y = [b], counts = c\<rparr> =
     (if a \<le> 0 then Inl not_positive_definite else Inr [b / a])"
  by (simp add: solver_defs real_div_sqrt field_simps)

lemma map_length_eye: "map (length \<circ> map f) (np_eye n) = replicate n n"
  by (simp add: np_eye_def comp_def map_replicate_const)

lemma square_map_length: "square A \<Longrightarrow> map length A = replicate (length A) (length A)"
  by (simp add: square_def map_length_wf)

lemma damp_ok:
  assumes "square A"
  shows "np_iadd2 A (map (map (\<lambda>e. e * reg)) (np_eye (length A)))
     = Inr (map2 (map2 (+)) A (map (map (\<lambda>e. e * reg)) (np_eye (length A))))"
  using square_map_length[OF assms] by (simp add: np_iadd2_def map_length_eye)

lemma damp_nth:
  assumes "square A" "i < length A" "j < length A"
  shows "map2 (map2 (+)) A (map (map (\<lambda>e. e * reg)) (np_eye (length A))) ! i ! j
     = A ! i ! j + (if i = j then reg else 0)"
proof -
  have "length (A ! i) = length A"
    using assms by (simp add: square_def list_all_length)
  then show ?thesis using assms by (simp add: np_eye_def)
qed

lemma damp_square:
  assumes "square A"
  shows "square (map2 (map2 (+)) A (map (map (\<lambda>e. e * reg)) (np_eye (length A))))"
  using assms by (simp add: square_def list_all_length np_eye_def)

lemma damp_zero:
  assumes "square A"
  shows "map2 (map2 (+)) A (map (map (\<lambda>e. e * 0)) (np_eye (length A))) = A"
proof -
  have "map (map (\<lambda>e. e * 0)) (np_eye (length A)) = np_zeros2 (length A) (length A)"
    by (simp add: np_eye_def np_zeros2_def map_replicate_const comp_def)
  then show ?thesis
    using assms madd_zero[of A "length A" "length A"]
    by (simp add: madd_comm[of A] square_def)
qed

lemma chol_sol_damped:
  assumes "square A"
  shows "cholesky_solution_linear_regression A b reg =
     (LinearRegression_cholesky_solution
         \<lparr>DIMENSION = d, BIAS = bi,
          x_t_x = map2 (map2 (+)) A (map (map (\<lambda>e. e * reg)) (np_eye (length A))),
          x_t_y = b, counts = c\<rparr>,
      map2 (map2 (+)) A (map (map (\<lambda>e. e * reg)) (np_eye (length A))))"
  unfolding cholesky_solution_linear_regression_def damp_ok[OF assms]
  by (simp add: LinearRegression_cholesky_solution_def split: sum.splits)

text \<open>
  C2 (as the code has it). For a square matrix \<open>A\<close> the solver of \<^verbatim>\<open>lr.py\<close> adds
  \<open>regularization\<close> to every diagonal entry of \<open>A\<close>, in the caller's array, and returns what
  the Cholesky solution of the matrix so damped is; the reducer calls it with the default
  \<open>10\<^sup>-\<^sup>1\<^sup>0\<close>. The solver of \<^verbatim>\<open>lr_norm.py\<close> adds nothing: it returns what the solver
  of \<^verbatim>\<open>lr.py\<close> returns for regularization \<open>0\<close>.
\<close>

theorem solve_adds_regularization:
  assumes "square A" and "M = snd (cholesky_solution_linear_regression A b reg)"
  shows "length M = length A \<and> square M
     \<and> (\<forall>i < length A. \<forall>j < length A. M ! i ! j = A ! i ! j + (if i = j then reg else 0))
     \<and> fst (cholesky_solution_linear_regression A b reg)
         = LinearRegression_cholesky_solution
             \<lparr>DIMENSION = d, BIAS = bi, x_t_x = M, x_t_y = b, counts = c\<rparr>
     \<and> reducer_lr self values =
         (case reducer_sum self values of
            Inl err \<Rightarrow> Inl err
          | Inr (m, v, observations) \<Rightarrow>
              fst (cholesky_solution_linear_regression m v (1 / 10 ^ 10)))
     \<and> LinearRegression_cholesky_solution
           \<lparr>DIMENSION = d, BIAS = bi, x_t_x = A, x_t_y = b, counts = c\<rparr>
         = fst (cholesky_solution_linear_regression A b 0)"
proof -
  let ?M = "map2 (map2 (+)) A (map (map (\<lambda>e. e * reg)) (np_eye (length A)))"
  have M: "M = ?M"
    unfolding assms(2) chol_sol_damped[OF assms(1), of b reg d bi c] by simp
  have 1: "length M = length A" unfolding M by (simp add: np_eye_def)
  have 2: "square M" unfolding M by (rule damp_square[OF assms(1)])
  have 3: "\<forall>i < length A. \<forall>j < length A. M ! i ! j = A ! i ! j + (if i = j then reg else 0)"
    unfolding M using damp_nth[OF assms(1)] by blast
  have 4: "fst (cholesky_solution_linear_regression A b reg)
         = LinearRegression_cholesky_solution
             \<lparr>DIMENSION = d, BIAS = bi, x_t_x = M, x_t_y = b, counts = c\<rparr>"
    unfolding M chol_sol_damped[OF assms(1), of b reg d bi c] by simp
  have 5: "reducer_lr self values =
         (case reducer_sum self values of
            Inl err \<Rightarrow> Inl err
          | Inr (m, v, observations) \<Rightarrow>
              fst (cholesky_solution_linear_regression m v (1 / 10 ^ 10)))"
    unfolding reducer_lr_def default_regularization_def by simp
  have 6: "LinearRegression_cholesky_solution
           \<lparr>DIMENSION = d, BIAS = bi, x_t_x = A, x_t_y = b, counts = c\<rparr>
         = fst (cholesky_solution_linear_regression A b 0)"
    unfolding chol_sol_damped[OF assms(1), of b 0 d bi c] damp_zero[OF assms(1)] by simp
  show ?thesis using 1 2 3 4 5 6 by blast
qed

theorem solve_adds_regularization_witness:
  "square [[3]]
   \<and> snd (cholesky_solution_linear_regression [[3]] [6] 1) = [[4]]
   \<and> fst (cholesky_solution_linear_regression [[3]] [6] 1)
       = LinearRegression_cholesky_solution
           \<lparr>DIMENSION = 0, BIAS = True, x_t_x = [[4]], x_t_y = [6], counts = 1\<rparr>
   \<and> LinearRegression_cholesky_solution
           \<lparr>DIMENSION = 0, BIAS = True, x_t_x = [[3]], x_t_y = [6], counts = 1\<rparr>
       = fst (cholesky_solution_linear_regression [[3]] [6] 0)"
proof -
  have s: "square [[3]]" by (simp add: square_def)
  have m: "[[4]] = snd (cholesky_solution_linear_regression [[3]] [6] 1)"
    by (simp add: chol_sol_1x1)
  show ?thesis
    using solve_adds_regularization[OF s m, of 0 True 1] s m by simp
qed

lemma extract_1_0: "extract_variables float_digits ''1,0'' = Inr (1, [0])"
  by (simp add: extract_variables_def strip_def isspace_def float_digits_def digit_of_def)

lemma norm_1_0:
  "for_each_line (process_line float_digits) (LinearRegression_init 1 False) [''1,0'']
     = (None, \<lparr>DIMENSION = 1, BIAS = False, x_t_x = [[0]], x_t_y = [0], counts = 1\<rparr>)"
  by (simp add: process_line_def extract_1_0 LinearRegression_init_def np_zeros2_def np_zeros_def
      np_iadd2_def np_iadd_def np_outer_def smul_def Let_def)

text \<open>
  \<^verbatim>\<open>LinearRegression(dimension=1, bias=False)\<close> after the line \<^verbatim>\<open>1,0\<close> holds the
  matrix \<open>[[0]]\<close>: its solver raises, where a solver that damped the matrix by
  \<open>10\<^sup>-\<^sup>1\<^sup>0\<close> first would return \<open>[0]\<close>.
\<close>

theorem no_regularization_counterexample:
  "snd (for_each_line (process_line float_digits) (LinearRegression_init 1 False) [''1,0''])
     = \<lparr>DIMENSION = 1, BIAS = False, x_t_x = [[0]], x_t_y = [0], counts = 1\<rparr>
   \<and> LinearRegression_cholesky_solution
        \<lparr>DIMENSION = 1, BIAS = False, x_t_x = [[0]], x_t_y = [0], counts = 1\<rparr>
       = Inl (LinAlgError ''Matrix is not positive definite'')
   \<and> fst (cholesky_solution_linear_regression [[0]] [0] (1 / 10 ^ 10)) = Inr [0]"
  unfolding norm_1_0 by (simp add: norm_sol_1x1 chol_sol_1x1 not_positive_definite_def)

text \<open>
  C3 fails for \<^verbatim>\<open>lr.py\<close>: the call changes the caller's matrix, and a second call on the
  same array returns another vector.
\<close>

theorem solve_twice:
  "cholesky_solution_linear_regression [[1]] [1] (1 / 10 ^ 10)
     = (Inr [1 / (1 + 1 / 10 ^ 10)], [[1 + 1 / 10 ^ 10]])
   \<and> cholesky_solution_linear_regression [[1 + 1 / 10 ^ 10]] [1] (1 / 10 ^ 10)
     = (Inr [1 / (1 + 2 / 10 ^ 10)], [[1 + 2 / 10 ^ 10]])
   \<and> [[1 + 1 / 10 ^ 10]] \<noteq> [[1 :: real]]
   \<and> [1 / (1 + 2 / 10 ^ 10)] \<noteq> [1 / (1 + 1 / 10 ^ 10) :: real]"
  by (simp add: chol_sol_1x1)

section \<open>The two entry points\<close>

lemma step_agree:
  "snd (mapper_lr to_float self line) = snd (process_line to_float self line)
   \<and> same_failure (fst (mapper_lr to_float self line)) (fst (process_line to_float self line))
   \<and> (fst (mapper_lr to_float self line) = None \<longleftrightarrow> fst (process_line to_float self line) = None)"
  by (auto simp: mapper_lr_def process_line_def same_failure_def Let_def split: sum.splits)

lemma for_each_line_agree:
  "snd (for_each_line (mapper_lr to_float) self lines)
      = snd (for_each_line (process_line to_float) self lines)
   \<and> same_failure (fst (for_each_line (mapper_lr to_float) self lines))
        (fst (for_each_line (process_line to_float) self lines))"
proof (induction lines arbitrary: self)
  case Nil
  then show ?case by (simp add: same_failure_def)
next
  case (Cons line lines)
  obtain e1 s1 where m: "mapper_lr to_float self line = (e1, s1)" by (cases "mapper_lr to_float self line")
  obtain e2 s2 where p: "process_line to_float self line = (e2, s2)" by (cases "process_line to_float self line")
  have s: "s1 = s2" and f: "same_failure e1 e2" and n: "e1 = None \<longleftrightarrow> e2 = None"
    using step_agree[of to_float self line] m p by simp_all
  show ?case
  proof (cases e1)
    case None
    then have "e2 = None" using n by simp
    then show ?thesis using None m p s Cons.IH[of s2] by simp
  next
    case (Some a)
    then obtain b where "e2 = Some b" using n by (cases e2) auto
    then show ?thesis using Some m p s f by simp
  qed
qed

lemma mapper_lr_wf:
  assumes "wf_lr self"
  shows "wf_lr (snd (mapper_lr to_float self line))
     \<and> dim_n (snd (mapper_lr to_float self line)) = dim_n self"
proof (cases "extract_variables to_float line")
  case (Inl e)
  then show ?thesis using assms by (simp add: mapper_lr_def)
next
  case (Inr p)
  obtain y fs where p: "p = (y, fs)" by (cases p)
  show ?thesis
  proof (cases "length fs = DIMENSION self")
    case True
    have lx: "length (if BIAS self then fs @ [1] else fs) = dim_n self"
      using True by (simp add: dim_n_def)
    show ?thesis
      unfolding mapper_lr_ok[OF assms Inr[unfolded p] True]
      using update_entries(1)[OF assms lx refl, of y] by (simp add: dim_n_def)
  next
    case False
    then show ?thesis using Inr p assms by (simp add: mapper_lr_def)
  qed
qed

lemma for_each_line_wf:
  assumes "wf_lr self"
  shows "wf_lr (snd (for_each_line (mapper_lr to_float) self lines))
     \<and> dim_n (snd (for_each_line (mapper_lr to_float) self lines)) = dim_n self"
  using assms
proof (induction lines arbitrary: self)
  case Nil
  then show ?case by simp
next
  case (Cons line lines)
  obtain e1 s1 where m: "mapper_lr to_float self line = (e1, s1)" by (cases "mapper_lr to_float self line")
  have w: "wf_lr s1" "dim_n s1 = dim_n self"
    using mapper_lr_wf[OF Cons.prems, of to_float line] m by simp_all
  show ?case
  proof (cases e1)
    case None
    then show ?thesis using m w Cons.IH[OF w(1)] by simp
  next
    case (Some a)
    then show ?thesis using m w by simp
  qed
qed

lemma reducer_sum_single:
  assumes "wf_lr s" "dim_n s = dim_n self"
  shows "reducer_sum self (mapper_lr_final s) = Inr (stat_of s)"
proof -
  let ?n = "dim_n self"
  have sh: "shaped ?n (x_t_x s, x_t_y s, counts s)"
    using assms by (simp add: shaped_def wf_lr_def)
  have "reducer_loop (np_zeros2 ?n ?n, np_zeros ?n, 0) (emit (x_t_x s, x_t_y s, counts s) @ [])
      = reducer_loop (map2 (map2 (+)) (np_zeros2 ?n ?n) (x_t_x s), map2 (+) (np_zeros ?n) (x_t_y s), 0 + counts s) []"
    by (rule reducer_loop_emit[OF _ _ sh]) (simp_all add: map_length_zeros2 np_zeros_def)
  moreover have "map2 (map2 (+)) (np_zeros2 ?n ?n) (x_t_x s) = x_t_x s"
    "map2 (+) (np_zeros ?n) (x_t_y s) = x_t_y s"
    using sh by (simp_all add: shaped_def madd_zero vadd_zero)
  ultimately show ?thesis
    by (simp add: reducer_sum_def mapper_lr_final_def emit_def stat_of_def Let_def)
qed

text \<open>
  C9 (as the code has it). On the same lines, with one partition, the job of \<^verbatim>\<open>lr.py\<close>
  and \<^verbatim>\<open>LinearRegression(dimension=8)\<close> of \<^verbatim>\<open>lr_norm.py\<close> accumulate the same
  statistic and stop at the same line, with the same exception or, on a dimension
  mismatch, with \<^verbatim>\<open>DimensionMismatchError\<close> in the job and \<^verbatim>\<open>ValueError\<close> in the
  file reader. When every line is accepted, the file reader returns the Cholesky solution
  for the statistic itself and the job returns what its solver gives for the statistic
  with regularization \<open>10\<^sup>-\<^sup>1\<^sup>0\<close>.
\<close>

theorem entry_points_compared:
  "snd (for_each_line (mapper_lr to_float) LinearRegressionTS_init lines)
      = snd (for_each_line (process_line to_float) (LinearRegression_init 8 True) lines)
   \<and> same_failure (fst (for_each_line (mapper_lr to_float) LinearRegressionTS_init lines))
        (fst (for_each_line (process_line to_float) (LinearRegression_init 8 True) lines))
   \<and> (case for_each_line (process_line to_float) (LinearRegression_init 8 True) lines of
         (Some err, s) \<Rightarrow>
            run to_float (LinearRegression_init 8 True) lines = Inl err
            \<and> (\<exists>err'. run_job to_float lines = Inl err'
                        \<and> same_failure (Some err') (Some err))
       | (None, s) \<Rightarrow>
            run to_float (LinearRegression_init 8 True) lines
              = LinearRegression_cholesky_solution s
            \<and> run_job to_float lines
              = fst (cholesky_solution_linear_regression (x_t_x s) (x_t_y s) default_regularization))"
proof -
  let ?a = "for_each_line (mapper_lr to_float) LinearRegressionTS_init lines"
  let ?b = "for_each_line (process_line to_float) (LinearRegression_init 8 True) lines"
  obtain e1 s1 where a: "?a = (e1, s1)" by (cases ?a)
  obtain e2 s2 where b: "?b = (e2, s2)" by (cases ?b)
  have ag: "s1 = s2" "same_failure e1 e2"
    using for_each_line_agree[of to_float "LinearRegression_init 8 True" lines] a b
    by (simp_all add: TS_init)
  have w: "wf_lr s1" "dim_n s1 = dim_n LinearRegressionTS_init"
    using for_each_line_wf[OF wf_init[of 8 True], of to_float lines] a by (simp_all add: TS_init)
  show ?thesis
  proof (cases e2)
    case None
    then have e1: "e1 = None" using ag(2) by (auto simp: same_failure_def)
    have "run_job to_float lines
        = fst (cholesky_solution_linear_regression (x_t_x s1) (x_t_y s1) default_regularization)"
      using a e1 reducer_sum_single[OF w]
      by (simp add: run_job_def reducer_lr_def stat_of_def)
    then show ?thesis using None a b ag e1 by (simp add: run_def)
  next
    case (Some err)
    then obtain err' where e1: "e1 = Some err'" using ag(2) by (auto simp: same_failure_def)
    have r: "run_job to_float lines = Inl err'"
      using a e1 by (simp add: run_job_def)
    show ?thesis using Some a b ag e1 r by (simp add: run_def)
  qed
qed

subsection \<open>An input on which the entry points differ\<close>

lemma extract_line9: "extract_variables float_digits ''1,0,0,0,0,0,0,0,0'' = Inr (1, [0,0,0,0,0,0,0,0])"
  by (simp add: extract_variables_def strip_def isspace_def float_digits_def digit_of_def)

lemma acc9: "for_each_line (process_line float_digits) (LinearRegression_init 8 True) [''1,0,0,0,0,0,0,0,0'']
  = (None, \<lparr>DIMENSION = 8, BIAS = True, x_t_x = replicate 8 (replicate 9 0) @ [replicate 8 0 @ [1]],
      x_t_y = replicate 8 0 @ [1], counts = 1\<rparr>)"
  by (simp add: process_line_def extract_line9 LinearRegression_init_def np_zeros2_def np_zeros_def
     np_iadd2_def np_iadd_def np_outer_def smul_def numeral_eq_Suc Let_def)

lemma TS_init_explicit: "LinearRegressionTS_init = \<lparr>DIMENSION = 8, BIAS = True,
   x_t_x = [[0,0,0,0,0,0,0,0,0],[0,0,0,0,0,0,0,0,0],[0,0,0,0,0,0,0,0,0],[0,0,0,0,0,0,0,0,0],[0,0,0,0,0,0,0,0,0],
            [0,0,0,0,0,0,0,0,0],[0,0,0,0,0,0,0,0,0],[0,0,0,0,0,0,0,0,0],[0,0,0,0,0,0,0,0,0]],
   x_t_y = [0,0,0,0,0,0,0,0,0], counts = 0\<rparr>"
  by (simp add: LinearRegressionTS_init_def np_zeros2_def np_zeros_def numeral_eq_Suc)

lemma map9: "for_each_line (mapper_lr float_digits) LinearRegressionTS_init [''1,0,0,0,0,0,0,0,0'']
  = (None, \<lparr>DIMENSION = 8, BIAS = True,
   x_t_x = [[0,0,0,0,0,0,0,0,0],[0,0,0,0,0,0,0,0,0],[0,0,0,0,0,0,0,0,0],[0,0,0,0,0,0,0,0,0],[0,0,0,0,0,0,0,0,0],
            [0,0,0,0,0,0,0,0,0],[0,0,0,0,0,0,0,0,0],[0,0,0,0,0,0,0,0,0],[0,0,0,0,0,0,0,0,1]],
   x_t_y = [0,0,0,0,0,0,0,0,1], counts = 1\<rparr>)"
  by (simp add: mapper_lr_def extract_line9 TS_init_explicit
     np_iadd2_def np_iadd_def np_outer_def smul_def Let_def)

lemma sum9: "reducer_sum LinearRegressionTS_init (mapper_lr_final \<lparr>DIMENSION = 8, BIAS = True,
   x_t_x = [[0,0,0,0,0,0,0,0,0],[0,0,0,0,0,0,0,0,0],[0,0,0,0,0,0,0,0,0],[0,0,0,0,0,0,0,0,0],[0,0,0,0,0,0,0,0,0],
            [0,0,0,0,0,0,0,0,0],[0,0,0,0,0,0,0,0,0],[0,0,0,0,0,0,0,0,0],[0,0,0,0,0,0,0,0,1]],
   x_t_y = [0,0,0,0,0,0,0,0,1], counts = 1\<rparr>) = Inr (
   [[0,0,0,0,0,0,0,0,0],[0,0,0,0,0,0,0,0,0],[0,0,0,0,0,0,0,0,0],[0,0,0,0,0,0,0,0,0],[0,0,0,0,0,0,0,0,0],
            [0,0,0,0,0,0,0,0,0],[0,0,0,0,0,0,0,0,0],[0,0,0,0,0,0,0,0,0],[0,0,0,0,0,0,0,0,1]],
   [0,0,0,0,0,0,0,0,1], 1)"
  by (simp add: reducer_sum_def mapper_lr_final_def dim_n_def TS_init_explicit np_zeros2_def np_zeros_def
      np_iadd2_def np_iadd_def Let_def numeral_eq_Suc)

lemma damp9: "np_iadd2 [[0,0,0,0,0,0,0,0,0],[0,0,0,0,0,0,0,0,0],[0,0,0,0,0,0,0,0,0],[0,0,0,0,0,0,0,0,0],[0,0,0,0,0,0,0,0,0],
            [0,0,0,0,0,0,0,0,0],[0,0,0,0,0,0,0,0,0],[0,0,0,0,0,0,0,0,0],[0,0,0,0,0,0,0,0,1]]
      (map (map (\<lambda>e. e * r)) (np_eye 9)) = Inr 
           [[r,0,0,0,0,0,0,0,0],[0,r,0,0,0,0,0,0,0],[0,0,r,0,0,0,0,0,0],[0,0,0,r,0,0,0,0,0],[0,0,0,0,r,0,0,0,0],
            [0,0,0,0,0,r,0,0,0],[0,0,0,0,0,0,r,0,0],[0,0,0,0,0,0,0,r,0],[0,0,0,0,0,0,0,0,1 + r]]"
  by (simp add: np_iadd2_def np_eye_def upt_rec[of _ "numeral _"] upt_rec[of _ "Suc _"])

lemma chol9: "0 < r \<Longrightarrow> np_linalg_cholesky 
           [[r,0,0,0,0,0,0,0,0],[0,r,0,0,0,0,0,0,0],[0,0,r,0,0,0,0,0,0],[0,0,0,r,0,0,0,0,0],[0,0,0,0,r,0,0,0,0],
            [0,0,0,0,0,r,0,0,0],[0,0,0,0,0,0,r,0,0],[0,0,0,0,0,0,0,r,0],[0,0,0,0,0,0,0,0,1 + r]]
     = Inr [[sqrt r,0,0,0,0,0,0,0,0],[0,sqrt r,0,0,0,0,0,0,0],[0,0,sqrt r,0,0,0,0,0,0],[0,0,0,sqrt r,0,0,0,0,0],[0,0,0,0,sqrt r,0,0,0,0],
            [0,0,0,0,0,sqrt r,0,0,0],[0,0,0,0,0,0,sqrt r,0,0],[0,0,0,0,0,0,0,sqrt r,0],[0,0,0,0,0,0,0,0,sqrt (1 + r)]]"
  by (simp add: np_linalg_cholesky_def square_def chol_offdiag_def dot_def Let_def)

lemma solve9a: "0 < r \<Longrightarrow> np_linalg_solve 
      [[sqrt r,0,0,0,0,0,0,0,0],[0,sqrt r,0,0,0,0,0,0,0],[0,0,sqrt r,0,0,0,0,0,0],[0,0,0,sqrt r,0,0,0,0,0],[0,0,0,0,sqrt r,0,0,0,0],
            [0,0,0,0,0,sqrt r,0,0,0],[0,0,0,0,0,0,sqrt r,0,0],[0,0,0,0,0,0,0,sqrt r,0],[0,0,0,0,0,0,0,0,sqrt (1 + r)]]
      [0,0,0,0,0,0,0,0,b] = Inr [0,0,0,0,0,0,0,0,b / sqrt (1 + r)]"
  by (simp add: np_linalg_solve_def square_def dot_def Let_def numeral_eq_Suc)

lemma tr9:  "np_transpose
      [[s,0,0,0,0,0,0,0,0],[0,s,0,0,0,0,0,0,0],[0,0,s,0,0,0,0,0,0],[0,0,0,s,0,0,0,0,0],[0,0,0,0,s,0,0,0,0],
            [0,0,0,0,0,s,0,0,0],[0,0,0,0,0,0,s,0,0],[0,0,0,0,0,0,0,s,0],[0,0,0,0,0,0,0,0,t]]
      = [[s,0,0,0,0,0,0,0,0],[0,s,0,0,0,0,0,0,0],[0,0,s,0,0,0,0,0,0],[0,0,0,s,0,0,0,0,0],[0,0,0,0,s,0,0,0,0],
            [0,0,0,0,0,s,0,0,0],[0,0,0,0,0,0,s,0,0],[0,0,0,0,0,0,0,s,0],[0,0,0,0,0,0,0,0,t::real]]"
  by (simp add: np_transpose_def upt_rec[of _ "numeral _"] upt_rec[of _ "Suc _"])

lemma sol9: "0 < r \<Longrightarrow> cholesky_solution_linear_regression
     [[0,0,0,0,0,0,0,0,0],[0,0,0,0,0,0,0,0,0],[0,0,0,0,0,0,0,0,0],[0,0,0,0,0,0,0,0,0],[0,0,0,0,0,0,0,0,0],
            [0,0,0,0,0,0,0,0,0],[0,0,0,0,0,0,0,0,0],[0,0,0,0,0,0,0,0,0],[0,0,0,0,0,0,0,0,1]]
     [0,0,0,0,0,0,0,0,1] r = (Inr [0,0,0,0,0,0,0,0,1 / (1 + r)],
           [[r,0,0,0,0,0,0,0,0],[0,r,0,0,0,0,0,0,0],[0,0,r,0,0,0,0,0,0],[0,0,0,r,0,0,0,0,0],[0,0,0,0,r,0,0,0,0],
            [0,0,0,0,0,r,0,0,0],[0,0,0,0,0,0,r,0,0],[0,0,0,0,0,0,0,r,0],[0,0,0,0,0,0,0,0,1 + r]])"
proof -
  assume r: "0 < r"
  have l: "length [[0,0,0,0,0,0,0,0,0],[0,0,0,0,0,0,0,0,0],[0,0,0,0,0,0,0,0,0],[0,0,0,0,0,0,0,0,0],[0,0,0,0,0,0,0,0,0],
            [0,0,0,0,0,0,0,0,0],[0,0,0,0,0,0,0,0,0],[0,0,0,0,0,0,0,0,0],[0,0,0,0,0,0,0,0,1::real]] = 9"
    by simp
  have d: "b / sqrt (1 + r) / sqrt (1 + r) = b / (1 + r)" for b
    using r by (simp add: field_simps)
  show ?thesis
    using r
    apply (simp only: cholesky_solution_linear_regression_def l damp9 sum.case)
    apply (simp only: chol9[OF r] sum.case)
    apply (simp only: solve9a[OF r] sum.case tr9)
    apply (simp add: d)
    done
qed

lemma job9: "run_job float_digits [''1,0,0,0,0,0,0,0,0'']
   = Inr [0,0,0,0,0,0,0,0, 1 / (1 + 1 / 10 ^ 10)]"
  unfolding run_job_def map9 reducer_lr_def
  using sum9 sol9[of default_regularization]
  by (simp add: default_regularization_def)

lemma norm9: "run float_digits (LinearRegression_init 8 True) [''1,0,0,0,0,0,0,0,0'']
   = Inl not_positive_definite"
  unfolding run_def acc9
  by (simp add: LinearRegression_cholesky_solution_def np_linalg_cholesky_def square_def chol_offdiag_def dot_def Let_def numeral_eq_Suc)

text \<open>
  On the single line \<^verbatim>\<open>1,0,0,0,0,0,0,0,0\<close> the file reader raises \<^verbatim>\<open>LinAlgError\<close>
  and the job returns a coefficient vector.
\<close>

theorem entry_points_counterexample:
  "run float_digits (LinearRegression_init 8 True) [''1,0,0,0,0,0,0,0,0'']
     = Inl (LinAlgError ''Matrix is not positive definite'')
   \<and> run_job float_digits [''1,0,0,0,0,0,0,0,0'']
     = Inr [0, 0, 0, 0, 0, 0, 0, 0, 1 / (1 + 1 / 10 ^ 10)]"
  using norm9 job9 by (simp add: not_positive_definite_def)

section \<open>Linear algebra\<close>

subsection \<open>Inner products and Gaussian elimination\<close>

lemma dot_Nil [simp]: "dot [] v = 0" "dot u [] = 0"
  by (simp_all add: dot_def)

lemma dot_Cons [simp]: "dot (a # u) (b # v) = a * b + dot u v"
  by (simp add: dot_def)

lemma dot_sum: "dot u v = (\<Sum>m < min (length u) (length v). u ! m * v ! m)"
proof (induction u arbitrary: v)
  case Nil
  then show ?case by simp
next
  case (Cons a u)
  show ?case
  proof (cases v)
    case Nil
    then show ?thesis by simp
  next
    case (Cons b w)
    then show ?thesis using Cons.IH[of w] by (simp add: sum.lessThan_Suc_shift del: sum.lessThan_Suc)
  qed
qed

lemma dot_zeros [simp]: "dot u (replicate n 0) = 0"
  by (simp add: dot_sum)

lemma dot_sub:
  "length u = length v \<Longrightarrow>
   dot (map2 (\<lambda>a c. a - f * c) u v) w = dot u w - f * dot v w"
proof (induction u arbitrary: v w)
  case Nil
  then show ?case by simp
next
  case (Cons a u)
  then obtain c v' where v: "v = c # v'" by (cases v) auto
  show ?case
  proof (cases w)
    case Nil
    then show ?thesis by simp
  next
    case (Cons b w')
    then show ?thesis using Cons.IH[of v' w'] Cons.prems v by (simp add: algebra_simps)
  qed
qed

lemma argmax_abs_max:
  "xs \<noteq> [] \<Longrightarrow> argmax_abs xs < length xs \<and> (\<forall>k < length xs. \<bar>xs ! k\<bar> \<le> \<bar>xs ! argmax_abs xs\<bar>)"
proof (induction xs rule: argmax_abs.induct)
  case 1
  then show ?case by simp
next
  case (2 x)
  then show ?case by simp
next
  case (3 x y ys)
  let ?xs = "y # ys"
  have ih: "argmax_abs ?xs < length ?xs" "\<forall>k < length ?xs. \<bar>?xs ! k\<bar> \<le> \<bar>?xs ! argmax_abs ?xs\<bar>"
    using 3 by simp_all
  show ?case
  proof (cases "\<bar>?xs ! argmax_abs ?xs\<bar> > \<bar>x\<bar>")
    case True
    have "\<bar>(x # ?xs) ! k\<bar> \<le> \<bar>?xs ! argmax_abs ?xs\<bar>" if "k < length (x # ?xs)" for k
      using that True ih(2) by (cases k) auto
    then show ?thesis using True ih(1) by (simp add: Let_def)
  next
    case False
    have "\<bar>(x # ?xs) ! k\<bar> \<le> \<bar>x\<bar>" if "k < length (x # ?xs)" for k
    proof (cases k)
      case 0
      then show ?thesis by simp
    next
      case (Suc k')
      then have "\<bar>?xs ! k'\<bar> \<le> \<bar>?xs ! argmax_abs ?xs\<bar>" using that ih(2) by simp
      then show ?thesis using False Suc by simp
    qed
    then show ?thesis using False by (simp add: Let_def)
  qed
qed

text \<open>The rows that remain after the pivot row has been swapped to the front.\<close>

lemma others_rows:
  assumes "p < length rows"
  shows "length (tl (rows[p := rows ! 0])) = length rows - 1"
    and "set rows \<subseteq> insert (rows ! p) (set (tl (rows[p := rows ! 0])))"
    and "set (tl (rows[p := rows ! 0])) \<subseteq> set rows"
proof -
  let ?sw = "rows[p := rows ! 0]"
  show "length (tl ?sw) = length rows - 1" by simp
  show "set rows \<subseteq> insert (rows ! p) (set (tl ?sw))"
  proof
    fix r assume "r \<in> set rows"
    then obtain k where k: "k < length rows" "r = rows ! k" by (auto simp: in_set_conv_nth)
    show "r \<in> insert (rows ! p) (set (tl ?sw))"
    proof (cases "k = p")
      case True
      then show ?thesis using k by simp
    next
      case False
      show ?thesis
      proof (cases k)
        case 0
        then have "p \<noteq> 0" using False by simp
        then obtain p' where p': "p = Suc p'" by (cases p) auto
        have "tl ?sw ! p' = rows ! 0" using assms p' by (simp add: nth_tl)
        moreover have "p' < length (tl ?sw)" using assms p' by simp
        ultimately have "rows ! 0 \<in> set (tl ?sw)" by (metis nth_mem)
        then show ?thesis using k 0 by simp
      next
        case (Suc k')
        have "tl ?sw ! k' = rows ! k" using k Suc False by (simp add: nth_tl)
        moreover have "k' < length (tl ?sw)" using k Suc by simp
        ultimately have "rows ! k \<in> set (tl ?sw)" by (metis nth_mem)
        then show ?thesis using k by simp
      qed
    qed
  qed
  show "set (tl ?sw) \<subseteq> set rows"
  proof
    fix r assume "r \<in> set (tl ?sw)"
    then have "r \<in> set ?sw" by (metis list.sel(2) list.set_sel(2))
    then have "r \<in> insert (rows ! 0) (set rows)" using set_update_subset_insert by fastforce
    moreover have "rows ! 0 \<in> set rows" using assms by (cases rows) auto
    ultimately show "r \<in> set rows" by auto
  qed
qed

lemma reduced_wf:
  assumes "wf_rows (Suc n) rows" "p < length rows" "rows ! p = (pr, pb)"
  shows "wf_rows n (map (\<lambda>(r, b). let f = hd r / hd pr
                                    in (map2 (\<lambda>a c. a - f * c) (tl r) (tl pr), b - f * pb))
                      (tl (rows[p := rows ! 0])))"
proof -
  have lp: "length pr = Suc n"
    using assms by (metis (mono_tags, lifting) case_prodD nth_mem wf_rows_def)
  have "length r = Suc n" if "(r, b) \<in> set (tl (rows[p := rows ! 0]))" for r b
    using that others_rows(3)[OF assms(2)] assms(1) by (auto simp: wf_rows_def)
  then show ?thesis
    using others_rows(1)[OF assms(2)] assms(1) lp
    by (auto simp: wf_rows_def Let_def)
qed

lemma gesv_sound:
  "wf_rows n rows \<Longrightarrow> gesv n rows = Inr x \<Longrightarrow> length x = n \<and> solves rows x"
proof (induction n arbitrary: rows x)
  case 0
  then show ?case by (simp add: wf_rows_def solves_def)
next
  case (Suc n)
  let ?p = "argmax_abs (map (\<lambda>(r, b). hd r) rows)"
  have ne: "rows \<noteq> []" using Suc.prems(1) by (auto simp: wf_rows_def)
  have p: "?p < length rows" using argmax_abs_max[of "map (\<lambda>(r, b). hd r) rows"] ne by simp
  obtain pr pb where pp: "rows ! ?p = (pr, pb)" by (cases "rows ! ?p")
  let ?others = "tl (rows[?p := rows ! 0])"
  let ?red = "map (\<lambda>(r, b). let f = hd r / hd pr
                                    in (map2 (\<lambda>a c. a - f * c) (tl r) (tl pr), b - f * pb)) ?others"
  have nz: "hd pr \<noteq> 0" using Suc.prems(2) pp by (auto simp: Let_def split: if_splits)
  obtain xs where xs: "gesv n ?red = Inr xs" and x: "x = (pb - dot (tl pr) xs) / hd pr # xs"
    using Suc.prems(2) pp nz by (auto simp: Let_def split: sum.splits)
  have wr: "wf_rows n ?red" by (rule reduced_wf[OF Suc.prems(1) p pp])
  have ih: "length xs = n" "solves ?red xs" using Suc.IH[OF wr xs] by simp_all
  have lp: "length pr = Suc n"
    using Suc.prems(1) p pp by (metis (mono_tags, lifting) case_prodD nth_mem wf_rows_def)
  then obtain p0 pt where pr: "pr = p0 # pt" by (cases pr) auto
  have piv: "dot pr x = pb" using nz by (simp add: x pr)
  have oth: "dot r x = b" if rb: "(r, b) \<in> set ?others" for r b
  proof -
    have lr: "length r = Suc n"
      using rb others_rows(3)[OF p] Suc.prems(1) by (auto simp: wf_rows_def)
    then obtain r0 rt where r: "r = r0 # rt" by (cases r) auto
    have "(map2 (\<lambda>a c. a - (r0 / p0) * c) rt pt, b - (r0 / p0) * pb) \<in> set ?red"
      using rb by (force simp: r pr Let_def)
    then have e1: "dot (map2 (\<lambda>a c. a - (r0 / p0) * c) rt pt) xs = b - (r0 / p0) * pb"
      using ih(2) by (auto simp: solves_def)
    have "length rt = length pt" using lr lp r pr by simp
    then have e2: "dot (map2 (\<lambda>a c. a - (r0 / p0) * c) rt pt) xs
        = dot rt xs - (r0 / p0) * dot pt xs"
      by (rule dot_sub)
    have "dot rt xs - (r0 / p0) * dot pt xs = b - (r0 / p0) * pb"
      by (rule trans[OF e2[symmetric] e1])
    then show ?thesis using nz by (simp add: r x pr field_simps)
  qed
  have "dot r x = b" if "(r, b) \<in> set rows" for r b
    using that others_rows(2)[OF p] pp piv oth by auto
  then show ?case using ih(1) x by (auto simp: solves_def)
qed

lemma gesv_complete:
  "wf_rows n rows \<Longrightarrow> nonsingular n rows \<Longrightarrow> \<exists>x. gesv n rows = Inr x"
proof (induction n arbitrary: rows)
  case 0
  then show ?case by simp
next
  case (Suc n)
  let ?col = "map (\<lambda>(r, b). hd r) rows"
  let ?p = "argmax_abs ?col"
  have ne: "rows \<noteq> []" using Suc.prems(1) by (auto simp: wf_rows_def)
  have "?col \<noteq> []" using ne by simp
  from argmax_abs_max[OF this]
  have p: "?p < length rows" and mx: "\<forall>k < length rows. \<bar>?col ! k\<bar> \<le> \<bar>?col ! ?p\<bar>"
    unfolding length_map by blast+
  obtain pr pb where pp: "rows ! ?p = (pr, pb)" by (cases "rows ! ?p")
  let ?others = "tl (rows[?p := rows ! 0])"
  let ?red = "map (\<lambda>(r, b). let f = hd r / hd pr
                                    in (map2 (\<lambda>a c. a - f * c) (tl r) (tl pr), b - f * pb)) ?others"
  have lp: "length pr = Suc n"
    using Suc.prems(1) p pp by (metis (mono_tags, lifting) case_prodD nth_mem wf_rows_def)
  then obtain p0 pt where pr: "pr = p0 # pt" by (cases pr) auto
  have nz: "hd pr \<noteq> 0"
  proof
    assume z: "hd pr = 0"
    have "?col ! ?p = 0" using p pp z by simp
    then have allz: "\<forall>k < length rows. ?col ! k = 0" using mx by auto
    have "dot r (1 # replicate n 0) = 0" if rb: "(r, b) \<in> set rows" for r b
    proof -
      obtain k where k: "k < length rows" "rows ! k = (r, b)"
        using rb by (auto simp: in_set_conv_nth)
      have "hd r = 0" using allz k by auto
      moreover have "length r = Suc n" using rb Suc.prems(1) by (auto simp: wf_rows_def)
      ultimately show ?thesis by (cases r) auto
    qed
    then have "1 # replicate n 0 = replicate (Suc n) (0::real)"
      using Suc.prems(2) unfolding nonsingular_def by (metis (mono_tags, lifting) case_prodI2 length_Cons length_replicate)
    then show False by simp
  qed
  have wr: "wf_rows n ?red" by (rule reduced_wf[OF Suc.prems(1) p pp])
  have ns: "nonsingular n ?red"
    unfolding nonsingular_def
  proof (intro allI impI)
    fix xs assume a: "length xs = n \<and> (\<forall>(r, b) \<in> set ?red. dot r xs = 0)"
    let ?x0 = "- dot pt xs / p0"
    let ?x = "?x0 # xs"
    have piv: "dot pr ?x = 0" using nz by (simp add: pr)
    have oth: "dot r ?x = 0" if rb: "(r, b) \<in> set ?others" for r b
    proof -
      have lr: "length r = Suc n"
        using rb others_rows(3)[OF p] Suc.prems(1) by (auto simp: wf_rows_def)
      then obtain r0 rt where r: "r = r0 # rt" by (cases r) auto
      have "(map2 (\<lambda>a c. a - (r0 / p0) * c) rt pt, b - (r0 / p0) * pb) \<in> set ?red"
        using rb by (force simp: r pr Let_def)
      then have e1: "dot (map2 (\<lambda>a c. a - (r0 / p0) * c) rt pt) xs = 0"
        using a by auto
      have "length rt = length pt" using lr lp r pr by simp
      then have e2: "dot (map2 (\<lambda>a c. a - (r0 / p0) * c) rt pt) xs
          = dot rt xs - (r0 / p0) * dot pt xs"
        by (rule dot_sub)
      have "dot rt xs - (r0 / p0) * dot pt xs = 0"
        by (rule trans[OF e2[symmetric] e1])
      then show ?thesis using nz by (simp add: r pr field_simps)
    qed
    have "dot r ?x = 0" if "(r, b) \<in> set rows" for r b
      using that others_rows(2)[OF p] pp piv oth by auto
    then have "?x = replicate (Suc n) 0"
      using Suc.prems(2) a unfolding nonsingular_def by (metis (mono_tags, lifting) case_prodI2 length_Cons)
    then show "xs = replicate n 0" by simp
  qed
  obtain xs where "gesv n ?red = Inr xs" using Suc.IH[OF wr ns] by blast
  then show ?case using pp nz by (auto simp: Let_def)
qed

subsection \<open>Triangular systems\<close>

lemma sum_single:
  fixes f :: "nat \<Rightarrow> real"
  assumes "i < n" "\<And>m. m < n \<Longrightarrow> m \<noteq> i \<Longrightarrow> f m = 0"
  shows "sum f {..<n} = f i"
proof -
  have "sum f {..<n} = f i + sum f ({..<n} - {i})"
    using assms(1) by (intro sum.remove) auto
  moreover have "sum f ({..<n} - {i}) = 0"
    using assms(2) by (intro sum.neutral) auto
  ultimately show ?thesis by simp
qed

lemma sum_cut:
  fixes f :: "nat \<Rightarrow> real"
  assumes "k \<le> n" "\<And>m. k \<le> m \<Longrightarrow> m < n \<Longrightarrow> f m = 0"
  shows "sum f {..<n} = sum f {..<k}"
proof -
  have "sum f {..<k} = sum f {..<n}"
    using assms by (intro sum.mono_neutral_left) auto
  then show ?thesis by simp
qed

lemma dot_sum_n: "length u = n \<Longrightarrow> length v = n \<Longrightarrow> dot u v = (\<Sum>m < n. u ! m * v ! m)"
  by (simp add: dot_sum)

lemma zeros_eqI: "length x = n \<Longrightarrow> (\<And>i. i < n \<Longrightarrow> x ! i = 0) \<Longrightarrow> x = replicate n (0::real)"
  by (simp add: nth_equalityI)

lemma lower_factor_square: "lower_factor n L \<Longrightarrow> square L"
  by (simp add: lower_factor_def square_def list_all_length)

lemma zip_rows:
  assumes "length L = n" "length b = n"
  shows "set (zip L b) = {(L ! i, b ! i) | i. i < n}"
  using assms by (auto simp: set_zip)

lemma wf_rows_zip:
  assumes "length L = n" "length b = n" "\<And>i. i < n \<Longrightarrow> length (L ! i) = n"
  shows "wf_rows n (zip L b)"
  using assms by (auto simp: wf_rows_def set_zip)

lemma nonsingular_lower:
  assumes L: "lower_factor n L" and b: "length b = n"
  shows "nonsingular n (zip L b)"
  unfolding nonsingular_def
proof (intro allI impI)
  fix x assume a: "length x = n \<and> (\<forall>(r, c) \<in> set (zip L b). dot r x = 0)"
  have lL: "length L = n" and lr: "\<And>i. i < n \<Longrightarrow> length (L ! i) = n"
    and dg: "\<And>i. i < n \<Longrightarrow> L ! i ! i \<noteq> 0"
    and up: "\<And>i j. i < n \<Longrightarrow> j < n \<Longrightarrow> i < j \<Longrightarrow> L ! i ! j = 0"
    using L by (auto simp: lower_factor_def)
  have eq: "(\<Sum>m < n. L ! i ! m * x ! m) = 0" if "i < n" for i
  proof -
    have "(L ! i, b ! i) \<in> set (zip L b)" using that lL b by (auto simp: set_zip)
    then have "dot (L ! i) x = 0" using a by auto
    then show ?thesis using a lr[OF that] by (simp add: dot_sum_n)
  qed
  have "x ! i = 0" if "i < n" for i
    using that
  proof (induction i rule: less_induct)
    case (less i)
    have "(\<Sum>m < n. L ! i ! m * x ! m) = L ! i ! i * x ! i"
    proof (rule sum_single[OF less.prems])
      fix m assume m: "m < n" "m \<noteq> i"
      show "L ! i ! m * x ! m = 0"
      proof (cases "m < i")
        case True
        then show ?thesis using less.IH[OF True m(1)] by simp
      next
        case False
        then have "i < m" using m by simp
        then show ?thesis using up[OF less.prems m(1)] by simp
      qed
    qed
    then show ?case using eq[OF less.prems] dg[OF less.prems] by simp
  qed
  then show "x = replicate n 0" using a by (simp add: zeros_eqI)
qed

lemma transpose_nth:
  assumes "length L = n" "\<forall>i < n. length (L ! i) = n"
  shows "length (np_transpose L) = n"
    and "\<And>i. i < n \<Longrightarrow> length (np_transpose L ! i) = n"
    and "\<And>i j. i < n \<Longrightarrow> j < n \<Longrightarrow> np_transpose L ! i ! j = L ! j ! i"
proof -
  have c: "(case L of [] \<Rightarrow> 0 | row # _ \<Rightarrow> length row) = n"
  proof (cases L)
    case Nil
    then show ?thesis using assms(1) by simp
  next
    case (Cons r rs)
    then have "0 < n" using assms(1) by auto
    then have "length (L ! 0) = n" using assms(2) by simp
    then show ?thesis using Cons by simp
  qed
  show "length (np_transpose L) = n" by (simp add: np_transpose_def c)
  show "\<And>i. i < n \<Longrightarrow> length (np_transpose L ! i) = n"
    using assms(1) by (simp add: np_transpose_def c)
  show "\<And>i j. i < n \<Longrightarrow> j < n \<Longrightarrow> np_transpose L ! i ! j = L ! j ! i"
    using assms(1) by (simp add: np_transpose_def c)
qed

lemma nonsingular_upper:
  assumes L: "lower_factor n L" and b: "length b = n"
  shows "nonsingular n (zip (np_transpose L) b)"
  unfolding nonsingular_def
proof (intro allI impI)
  fix x assume a: "length x = n \<and> (\<forall>(r, c) \<in> set (zip (np_transpose L) b). dot r x = 0)"
  have lL: "length L = n" and lr: "\<And>i. i < n \<Longrightarrow> length (L ! i) = n"
    and dg: "\<And>i. i < n \<Longrightarrow> L ! i ! i \<noteq> 0"
    and up: "\<And>i j. i < n \<Longrightarrow> j < n \<Longrightarrow> i < j \<Longrightarrow> L ! i ! j = 0"
    using L by (auto simp: lower_factor_def)
  have "\<forall>i < n. length (L ! i) = n" using lr by blast
  note T = transpose_nth[OF lL this]
  have eq: "(\<Sum>m < n. L ! m ! i * x ! m) = 0" if "i < n" for i
  proof -
    have "(np_transpose L ! i, b ! i) \<in> set (zip (np_transpose L) b)"
      using that T(1) b by (auto simp: set_zip)
    then have "dot (np_transpose L ! i) x = 0" using a by auto
    then have "(\<Sum>m < n. np_transpose L ! i ! m * x ! m) = 0"
      using a T(2)[OF that] by (simp add: dot_sum_n)
    then show ?thesis using T(3)[OF that] by simp
  qed
  have "\<forall>i < n. n \<le> i + k \<longrightarrow> x ! i = 0" for k
  proof (induction k)
    case 0
    then show ?case by simp
  next
    case (Suc k)
    show ?case
    proof (intro allI impI)
      fix i assume i: "i < n" "n \<le> i + Suc k"
      have "(\<Sum>m < n. L ! m ! i * x ! m) = L ! i ! i * x ! i"
      proof (rule sum_single[OF i(1)])
        fix m assume m: "m < n" "m \<noteq> i"
        show "L ! m ! i * x ! m = 0"
        proof (cases "m < i")
          case True
          then show ?thesis using up[OF m(1) i(1)] by simp
        next
          case False
          then have "n \<le> m + k" using m i by simp
          then show ?thesis using Suc.IH m(1) by simp
        qed
      qed
      then show "x ! i = 0" using eq[OF i(1)] dg[OF i(1)] by simp
    qed
  qed
  then have "x ! i = 0" if "i < n" for i using that by (metis le_add2)
  then show "x = replicate n 0" using a by (simp add: zeros_eqI)
qed

lemma solve_lower:
  assumes L: "lower_factor n L" and b: "length b = n"
  shows "\<exists>z. np_linalg_solve L b = Inr z \<and> length z = n
           \<and> (\<forall>i < n. (\<Sum>m < n. L ! i ! m * z ! m) = b ! i)"
proof -
  have lL: "length L = n" and lr: "\<And>i. i < n \<Longrightarrow> length (L ! i) = n"
    using L by (auto simp: lower_factor_def)
  have wf: "wf_rows n (zip L b)" by (rule wf_rows_zip[OF lL b lr])
  obtain z where z: "gesv n (zip L b) = Inr z"
    using gesv_complete[OF wf nonsingular_lower[OF L b]] by blast
  have s: "length z = n" "solves (zip L b) z" using gesv_sound[OF wf z] by simp_all
  have "(\<Sum>m < n. L ! i ! m * z ! m) = b ! i" if "i < n" for i
  proof -
    have "(L ! i, b ! i) \<in> set (zip L b)" using that lL b by (auto simp: set_zip)
    then have "dot (L ! i) z = b ! i" using s(2) by (auto simp: solves_def)
    then show ?thesis using s(1) lr[OF that] by (simp add: dot_sum_n)
  qed
  then show ?thesis
    using z s(1) lower_factor_square[OF L] lL b by (simp add: np_linalg_solve_def)
qed

lemma solve_upper:
  assumes L: "lower_factor n L" and b: "length b = n"
  shows "\<exists>z. np_linalg_solve (np_transpose L) b = Inr z \<and> length z = n
           \<and> (\<forall>i < n. (\<Sum>m < n. L ! m ! i * z ! m) = b ! i)"
proof -
  have lL: "length L = n" and lr: "\<And>i. i < n \<Longrightarrow> length (L ! i) = n"
    using L by (auto simp: lower_factor_def)
  have "\<forall>i < n. length (L ! i) = n" using lr by blast
  note T = transpose_nth[OF lL this]
  have wf: "wf_rows n (zip (np_transpose L) b)" by (rule wf_rows_zip[OF T(1) b T(2)])
  obtain z where z: "gesv n (zip (np_transpose L) b) = Inr z"
    using gesv_complete[OF wf nonsingular_upper[OF L b]] by blast
  have s: "length z = n" "solves (zip (np_transpose L) b) z" using gesv_sound[OF wf z] by simp_all
  have "(\<Sum>m < n. L ! m ! i * z ! m) = b ! i" if "i < n" for i
  proof -
    have "(np_transpose L ! i, b ! i) \<in> set (zip (np_transpose L) b)"
      using that T(1) b by (auto simp: set_zip)
    then have "dot (np_transpose L ! i) z = b ! i" using s(2) by (auto simp: solves_def)
    then have "(\<Sum>m < n. np_transpose L ! i ! m * z ! m) = b ! i"
      using s(1) T(2)[OF that] by (simp add: dot_sum_n)
    then show ?thesis using T(3)[OF that] by simp
  qed
  moreover have "square (np_transpose L)"
    using T(1,2) by (simp add: square_def list_all_length)
  ultimately show ?thesis
    using z s(1) T(1) b by (simp add: np_linalg_solve_def)
qed

subsection \<open>The Cholesky factor\<close>

lemma offdiag_take:
  assumes "length ls = i" "i \<le> length ai" "\<forall>j < i. j < length (ls ! j) \<and> ls ! j ! j \<noteq> 0"
    and "k \<le> i"
    and "g = foldl (\<lambda>l (lj, aij). l @ [(aij - dot (take (length l) lj) l) / lj ! length l]) []
               (take k (zip ls ai))"
  shows "length g = k
     \<and> (\<forall>j < k. (\<Sum>m < j. ls ! j ! m * g ! m) + ls ! j ! j * g ! j = ai ! j)"
  using assms(4,5)
proof (induction k arbitrary: g)
  case 0
  then show ?case by simp
next
  case (Suc k)
  let ?f = "\<lambda>l (lj, aij). l @ [(aij - dot (take (length l) lj) l) / lj ! length l]"
  let ?g = "foldl ?f [] (take k (zip ls ai))"
  have k: "k < i" using Suc.prems(1) by simp
  have ih: "length ?g = k"
    "\<forall>j < k. (\<Sum>m < j. ls ! j ! m * ?g ! m) + ls ! j ! j * ?g ! j = ai ! j"
    using Suc.IH[of ?g] k by simp_all
  have kz: "k < length (zip ls ai)" using k assms(1,2) by simp
  have "take (Suc k) (zip ls ai) = take k (zip ls ai) @ [(ls ! k, ai ! k)]"
    using kz assms(1,2) k by (simp add: take_Suc_conv_app_nth)
  then have g: "g = ?g @ [(ai ! k - dot (take k (ls ! k)) ?g) / ls ! k ! k]"
    using Suc.prems(2) ih(1) by simp
  have lk: "k < length (ls ! k)" and nz: "ls ! k ! k \<noteq> 0" using assms(3) k by auto
  have d: "dot (take k (ls ! k)) ?g = (\<Sum>m < k. ls ! k ! m * ?g ! m)"
    using lk ih(1) by (simp add: dot_sum min_def)
  have "(\<Sum>m < j. ls ! j ! m * g ! m) + ls ! j ! j * g ! j = ai ! j" if j: "j < Suc k" for j
  proof (cases "j < k")
    case True
    have "(\<Sum>m < j. ls ! j ! m * g ! m) = (\<Sum>m < j. ls ! j ! m * ?g ! m)"
      using True ih(1) by (intro sum.cong) (simp_all add: g nth_append)
    moreover have "g ! j = ?g ! j" using True ih(1) by (simp add: g nth_append)
    ultimately show ?thesis using ih(2) True by simp
  next
    case False
    then have jk: "j = k" using j by simp
    have "(\<Sum>m < k. ls ! k ! m * g ! m) = (\<Sum>m < k. ls ! k ! m * ?g ! m)"
      using ih(1) by (intro sum.cong) (simp_all add: g nth_append)
    moreover have "g ! k = (ai ! k - dot (take k (ls ! k)) ?g) / ls ! k ! k"
      using ih(1) by (simp add: g nth_append)
    ultimately show ?thesis using nz d by (simp add: jk)
  qed
  then show ?case using g ih(1) by simp
qed

lemma offdiag_props:
  assumes "length ls = i" "i \<le> length ai" "\<forall>j < i. j < length (ls ! j) \<and> ls ! j ! j \<noteq> 0"
  shows "length (chol_offdiag ls ai) = i"
    and "\<forall>j < i. (\<Sum>m < j. ls ! j ! m * chol_offdiag ls ai ! m)
                  + ls ! j ! j * chol_offdiag ls ai ! j = ai ! j"
proof -
  have "take i (zip ls ai) = zip ls ai" using assms(1,2) by simp
  then have "chol_offdiag ls ai
      = foldl (\<lambda>l (lj, aij). l @ [(aij - dot (take (length l) lj) l) / lj ! length l]) []
               (take i (zip ls ai))"
    by (simp add: chol_offdiag_def)
  from offdiag_take[OF assms le_refl this]
  show "length (chol_offdiag ls ai) = i"
    and "\<forall>j < i. (\<Sum>m < j. ls ! j ! m * chol_offdiag ls ai ! m)
                  + ls ! j ! j * chol_offdiag ls ai ! j = ai ! j"
    by simp_all
qed

lemma chol_inv_offdiag:
  assumes inv: "chol_inv n A ls" and i: "length ls = i" "i < n" and la: "length ai = n"
  shows "length (chol_offdiag ls ai) = i"
    and "\<forall>j < i. (\<Sum>m < j. ls ! j ! m * chol_offdiag ls ai ! m)
                  + ls ! j ! j * chol_offdiag ls ai ! j = ai ! j"
proof -
  have "\<forall>j < i. j < length (ls ! j) \<and> ls ! j ! j \<noteq> 0"
    using inv i by (auto simp: chol_inv_def)
  moreover have "i \<le> length ai" using i la by simp
  ultimately show "length (chol_offdiag ls ai) = i"
    and "\<forall>j < i. (\<Sum>m < j. ls ! j ! m * chol_offdiag ls ai ! m)
                  + ls ! j ! j * chol_offdiag ls ai ! j = ai ! j"
    using offdiag_props[OF i(1)] by blast+
qed

lemma chol_inv_step:
  assumes inv: "chol_inv n A ls" and i: "length ls = i" "i < n" and la: "length (A ! i) = n"
    and l: "l = chol_offdiag ls (A ! i)" and d: "d = A ! i ! i - dot l l" "0 < d"
  shows "chol_inv n A (ls @ [l @ [sqrt d] @ replicate (n - i - 1) 0])"
proof -
  define r where "r = l @ [sqrt d] @ replicate (n - i - 1) 0"
  let ?ls = "ls @ [r]"
  have ll: "length l = i"
    and rec: "\<And>j. j < i \<Longrightarrow> (\<Sum>m < j. ls ! j ! m * l ! m) + ls ! j ! j * l ! j = A ! i ! j"
    using chol_inv_offdiag[OF inv i la] l by simp_all
  have lr: "length r = n" using ll i by (simp add: r_def)
  have rlo: "\<And>m. m < i \<Longrightarrow> r ! m = l ! m" using ll by (simp add: r_def nth_append)
  have rdi: "r ! i = sqrt d" using ll by (simp add: r_def nth_append)
  have rhi: "\<And>m. i < m \<Longrightarrow> m < n \<Longrightarrow> r ! m = 0"
    using ll by (simp add: r_def nth_append nth_Cons')
  have old: "\<And>k. k < i \<Longrightarrow> ?ls ! k = ls ! k" using i by (simp add: nth_append)
  have new: "?ls ! i = r" using i by (simp add: nth_append)
  have rowk: "length (ls ! k) = n \<and> 0 < ls ! k ! k
            \<and> (\<forall>j < n. k < j \<longrightarrow> ls ! k ! j = 0)
            \<and> (\<forall>j \<le> k. (\<Sum>m < n. ls ! k ! m * ls ! j ! m) = A ! k ! j)" if "k < i" for k
    using inv i that by (simp add: chol_inv_def)
  have prod_lo: "(\<Sum>m < n. r ! m * ls ! j ! m) = A ! i ! j" if j: "j < i" for j
  proof -
    have z: "\<And>m. Suc j \<le> m \<Longrightarrow> m < n \<Longrightarrow> r ! m * ls ! j ! m = 0"
      using rowk[OF j] by simp
    have "(\<Sum>m < n. r ! m * ls ! j ! m) = (\<Sum>m < Suc j. r ! m * ls ! j ! m)"
      using j i by (intro sum_cut z) simp_all
    also have "\<dots> = (\<Sum>m < Suc j. ls ! j ! m * l ! m)"
      using j by (intro sum.cong) (simp_all add: rlo)
    also have "\<dots> = A ! i ! j" using rec[OF j] by simp
    finally show ?thesis .
  qed
  have prod_di: "(\<Sum>m < n. r ! m * r ! m) = A ! i ! i"
  proof -
    have "(\<Sum>m < n. r ! m * r ! m) = (\<Sum>m < Suc i. r ! m * r ! m)"
      using i by (intro sum_cut) (simp_all add: rhi)
    also have "\<dots> = (\<Sum>m < i. l ! m * l ! m) + sqrt d * sqrt d"
      using rdi by (simp add: rlo)
    also have "\<dots> = dot l l + d" using d(2) ll by (simp add: dot_sum)
    finally show ?thesis using d(1) by simp
  qed
  have "length (?ls ! k) = n \<and> 0 < ?ls ! k ! k
            \<and> (\<forall>j < n. k < j \<longrightarrow> ?ls ! k ! j = 0)
            \<and> (\<forall>j \<le> k. (\<Sum>m < n. ?ls ! k ! m * ?ls ! j ! m) = A ! k ! j)" if k: "k < Suc i" for k
  proof (cases "k < i")
    case True
    have "\<And>j. j \<le> k \<Longrightarrow> ?ls ! j = ls ! j" using True old by simp
    then show ?thesis using rowk[OF True] old[OF True] by simp
  next
    case False
    then have ki: "k = i" using k by simp
    have "(\<Sum>m < n. r ! m * ?ls ! j ! m) = A ! i ! j" if "j \<le> i" for j
    proof (cases "j < i")
      case True
      then show ?thesis using prod_lo[OF True] old[OF True] by simp
    next
      case False
      then have "j = i" using that by simp
      then show ?thesis using prod_di new by simp
    qed
    then show ?thesis unfolding ki new using lr rdi d(2) rhi by simp
  qed
  then show ?thesis using i unfolding r_def by (simp add: chol_inv_def)
qed

lemma chol_loop_sound:
  assumes "chol_loop n ls rest = Inr L" "chol_inv n A ls" "rest = drop (length ls) A"
    and "length A = n" "\<forall>i < n. length (A ! i) = n"
  shows "chol_inv n A L \<and> length L = n"
  using assms(1,2,3)
proof (induction rest arbitrary: ls)
  case Nil
  then have "length ls = n" using assms(4) by (simp add: chol_inv_def)
  then show ?case using Nil by simp
next
  case (Cons ai rest)
  let ?i = "length ls"
  have i: "?i < n" using Cons.prems(3) assms(4) by (metis drop_eq_Nil2 leI list.distinct(1))
  have ai: "ai = A ! ?i" and rest: "rest = drop (Suc ?i) A"
    using Cons.prems(3) i assms(4) by (metis Cons_nth_drop_Suc list.inject)+
  let ?l = "chol_offdiag ls ai"
  let ?d = "ai ! ?i - dot ?l ?l"
  have pos: "0 < ?d" using Cons.prems(1) by (auto simp: Let_def split: if_splits)
  let ?ls = "ls @ [?l @ [sqrt ?d] @ replicate (n - ?i - 1) 0]"
  have loop: "chol_loop n ?ls rest = Inr L" using Cons.prems(1) pos by (simp add: Let_def)
  have la: "length (A ! ?i) = n" using assms(5) i by simp
  have inv: "chol_inv n A ?ls"
    using chol_inv_step[OF Cons.prems(2) refl i la, of ?l ?d] pos ai by simp
  show ?case using Cons.IH[OF loop inv] rest by simp
qed

lemma chol_loop_error:
  "chol_loop n ls rest = Inl e \<Longrightarrow> e = not_positive_definite"
  by (induction rest arbitrary: ls) (auto simp: Let_def split: if_splits)

lemma chol_inv_Nil: "chol_inv n A []"
  by (simp add: chol_inv_def)

lemma cholesky_sound:
  assumes "np_linalg_cholesky A = Inr L" "length A = n"
  shows "lower_factor n L \<and> (\<forall>k < n. \<forall>j \<le> k. (\<Sum>m < n. L ! k ! m * L ! j ! m) = A ! k ! j)"
proof -
  have sq: "square A" and loop: "chol_loop n [] A = Inr L"
    using assms by (auto simp: np_linalg_cholesky_def split: if_splits)
  have rows: "\<forall>i < n. length (A ! i) = n"
    using sq assms(2) by (simp add: square_def list_all_length)
  have "chol_inv n A L \<and> length L = n"
    by (rule chol_loop_sound[OF loop chol_inv_Nil _ assms(2) rows]) simp
  then show ?thesis by (simp add: chol_inv_def lower_factor_def)
qed

subsection \<open>Positive definiteness\<close>

lemma quad_sum:
  assumes "length A = n" "\<forall>i < n. length (A ! i) = n" "length x = n"
  shows "quad_form A x = (\<Sum>p < n. \<Sum>q < n. x ! p * A ! p ! q * x ! q)"
proof -
  have "quad_form A x = (\<Sum>p < n. x ! p * dot (A ! p) x)"
    using assms by (simp add: quad_form_def dot_sum)
  also have "\<dots> = (\<Sum>p < n. x ! p * (\<Sum>q < n. A ! p ! q * x ! q))"
    using assms by (intro sum.cong) (simp_all add: dot_sum_n)
  also have "\<dots> = (\<Sum>p < n. \<Sum>q < n. x ! p * A ! p ! q * x ! q)"
    by (simp add: sum_distrib_left mult.assoc)
  finally show ?thesis .
qed

lemma gram_quad:
  fixes L :: "nat \<Rightarrow> nat \<Rightarrow> real" and x :: "nat \<Rightarrow> real"
  shows "(\<Sum>p < n. \<Sum>q < n. x p * (\<Sum>m < k. L p m * L q m) * x q)
       = (\<Sum>m < k. (\<Sum>p < n. L p m * x p)\<^sup>2)"
proof -
  have "(\<Sum>p < n. \<Sum>q < n. x p * (\<Sum>m < k. L p m * L q m) * x q)
      = (\<Sum>p < n. \<Sum>q < n. \<Sum>m < k. (L p m * x p) * (L q m * x q))"
    by (simp add: sum_distrib_left sum_distrib_right algebra_simps)
  also have "\<dots> = (\<Sum>p < n. \<Sum>m < k. \<Sum>q < n. (L p m * x p) * (L q m * x q))"
    by (intro sum.cong refl sum.swap)
  also have "\<dots> = (\<Sum>m < k. \<Sum>p < n. \<Sum>q < n. (L p m * x p) * (L q m * x q))"
    by (rule sum.swap)
  also have "\<dots> = (\<Sum>m < k. (\<Sum>p < n. L p m * x p)\<^sup>2)"
    by (simp add: power2_eq_square sum_product)
  finally show ?thesis .
qed

lemma factor_full:
  assumes L: "lower_factor n L"
    and low: "\<forall>k < n. \<forall>j \<le> k. (\<Sum>m < n. L ! k ! m * L ! j ! m) = A ! k ! j"
    and sym: "symmetric A" and lA: "length A = n"
  shows "\<forall>k < n. \<forall>j < n. (\<Sum>m < n. L ! k ! m * L ! j ! m) = A ! k ! j"
proof (intro allI impI)
  fix k j assume kj: "k < n" "j < n"
  show "(\<Sum>m < n. L ! k ! m * L ! j ! m) = A ! k ! j"
  proof (cases "j \<le> k")
    case True
    then show ?thesis using low kj by simp
  next
    case False
    then have "k \<le> j" by simp
    then have "(\<Sum>m < n. L ! j ! m * L ! k ! m) = A ! j ! k" using low kj by simp
    moreover have "A ! j ! k = A ! k ! j" using sym kj lA by (simp add: symmetric_def)
    ultimately show ?thesis by (simp add: mult.commute)
  qed
qed

lemma upper_kernel:
  assumes L: "lower_factor n L" and x: "length x = n"
    and z: "\<forall>m < n. (\<Sum>p < n. L ! p ! m * x ! p) = 0"
  shows "x = replicate n 0"
proof -
  have lL: "length L = n" and lr: "\<forall>i < n. length (L ! i) = n"
    using L by (auto simp: lower_factor_def)
  note T = transpose_nth[OF lL lr]
  have "dot r x = 0" if rc: "(r, c) \<in> set (zip (np_transpose L) x)" for r c
  proof -
    obtain m where m: "m < n" "r = np_transpose L ! m"
      using rc T(1) by (auto simp: set_zip)
    have "dot r x = (\<Sum>p < n. np_transpose L ! m ! p * x ! p)"
      using m T(2) x by (simp add: dot_sum_n)
    also have "\<dots> = (\<Sum>p < n. L ! p ! m * x ! p)"
      using m T(3) by simp
    finally show ?thesis using z m by simp
  qed
  then show ?thesis
    using nonsingular_upper[OF L x] x
    unfolding nonsingular_def by (metis (mono_tags, lifting) case_prodI2)
qed

lemma factor_pd:
  assumes L: "lower_factor n L"
    and full: "\<forall>k < n. \<forall>j < n. (\<Sum>m < n. L ! k ! m * L ! j ! m) = A ! k ! j"
    and lA: "length A = n" and rows: "\<forall>i < n. length (A ! i) = n"
  shows "positive_definite A"
  unfolding positive_definite_def
proof (intro allI impI)
  fix x :: vec assume a: "length x = length A \<and> x \<noteq> replicate (length A) 0"
  then have x: "length x = n" and nz: "x \<noteq> replicate n 0" using lA by simp_all
  have "quad_form A x = (\<Sum>p < n. \<Sum>q < n. x ! p * A ! p ! q * x ! q)"
    by (rule quad_sum[OF lA rows x])
  also have "\<dots> = (\<Sum>p < n. \<Sum>q < n. x ! p * (\<Sum>m < n. L ! p ! m * L ! q ! m) * x ! q)"
    using full by simp
  also have "\<dots> = (\<Sum>m < n. (\<Sum>p < n. L ! p ! m * x ! p)\<^sup>2)"
    by (rule gram_quad)
  finally have q: "quad_form A x = (\<Sum>m < n. (\<Sum>p < n. L ! p ! m * x ! p)\<^sup>2)" .
  have ge: "0 \<le> quad_form A x" unfolding q by (intro sum_nonneg) simp
  have "quad_form A x \<noteq> 0"
  proof
    assume "quad_form A x = 0"
    then have "\<forall>m \<in> {..<n}. (\<Sum>p < n. L ! p ! m * x ! p)\<^sup>2 = 0"
      unfolding q by (subst (asm) sum_nonneg_eq_0_iff) auto
    then have "\<forall>m < n. (\<Sum>p < n. L ! p ! m * x ! p) = 0" by simp
    then show False using upper_kernel[OF L x] nz by simp
  qed
  then show "0 < quad_form A x" using ge by simp
qed

lemma corner_sum:
  fixes x :: "nat \<Rightarrow> real"
  shows "(\<Sum>p < Suc i. \<Sum>q < Suc i. x p * (if p = i \<and> q = i then d else 0) * x q) = x i * d * x i"
proof -
  have "(\<Sum>q < Suc i. x p * (if p = i \<and> q = i then d else 0) * x q)
      = (if p = i then x i * d * x i else 0)" for p
  proof (cases "p = i")
    case True
    have "(\<Sum>q < Suc i. x i * (if q = i then d else 0) * x q) = x i * (if i = i then d else 0) * x i"
      by (rule sum_single) simp_all
    then show ?thesis using True by simp
  next
    case False
    then show ?thesis by simp
  qed
  then have "(\<Sum>p < Suc i. \<Sum>q < Suc i. x p * (if p = i \<and> q = i then d else 0) * x q)
      = (\<Sum>p < Suc i. if p = i then x i * d * x i else 0)"
    by simp
  also have "\<dots> = (if i = i then x i * d * x i else 0)"
    by (rule sum_single) simp_all
  finally show ?thesis by simp
qed

lemma pivot_positive:
  assumes inv: "chol_inv n A ls" and i: "length ls = i" "i < n"
    and lA: "length A = n" and rows: "\<forall>k < n. length (A ! k) = n"
    and sym: "symmetric A" and pd: "positive_definite A"
    and l: "l = chol_offdiag ls (A ! i)"
  shows "0 < A ! i ! i - dot l l"
proof -
  define d where "d = A ! i ! i - dot l l"
  have la: "length (A ! i) = n" using rows i by simp
  have ll: "length l = i"
    and rec: "\<And>j. j < i \<Longrightarrow> (\<Sum>m < j. ls ! j ! m * l ! m) + ls ! j ! j * l ! j = A ! i ! j"
    using chol_inv_offdiag[OF inv i la] l by simp_all
  have rowk: "length (ls ! k) = n \<and> 0 < ls ! k ! k
            \<and> (\<forall>j < n. k < j \<longrightarrow> ls ! k ! j = 0)
            \<and> (\<forall>j \<le> k. (\<Sum>m < n. ls ! k ! m * ls ! j ! m) = A ! k ! j)" if "k < i" for k
    using inv i that by (simp add: chol_inv_def)
  \<comment> \<open>the leading block of the factor, and a solution of its transposed system\<close>
  define Li where "Li = map (take i) ls"
  have Li: "lower_factor i Li"
    using rowk i by (auto simp: lower_factor_def Li_def)
  obtain z where z: "length z = i"
    and zs: "\<forall>m < i. (\<Sum>p < i. Li ! p ! m * z ! p) = map uminus l ! m"
    using solve_upper[OF Li, of "map uminus l"] ll by auto
  have zsol: "(\<Sum>p < i. ls ! p ! m * z ! p) = - l ! m" if m: "m < i" for m
  proof -
    have "(\<Sum>p < i. ls ! p ! m * z ! p) = (\<Sum>p < i. Li ! p ! m * z ! p)"
      using m i by (intro sum.cong) (simp_all add: Li_def)
    then show ?thesis using zs m ll by simp
  qed
  \<comment> \<open>the test vector\<close>
  define x where "x = z @ [1] @ replicate (n - i - 1) 0"
  have lx: "length x = n" using z i by (simp add: x_def)
  have xlo: "\<And>p. p < i \<Longrightarrow> x ! p = z ! p" using z by (simp add: x_def nth_append)
  have xi: "x ! i = 1" using z by (simp add: x_def nth_append)
  have xhi: "\<And>p. i < p \<Longrightarrow> p < n \<Longrightarrow> x ! p = 0"
    using z by (simp add: x_def nth_append nth_Cons')
  have xnz: "x \<noteq> replicate n 0"
  proof
    assume "x = replicate n 0"
    then have "x ! i = 0" using i by simp
    then show False using xi by simp
  qed
  \<comment> \<open>the leading block of \<open>A\<close> through the rows computed so far\<close>
  define Lf where "Lf p m = (if p < i then ls ! p ! m else l ! m)" for p m
  have blk_lo: "A ! p ! q = (\<Sum>m < i. ls ! p ! m * ls ! q ! m)" if pq: "p < i" "q < i" for p q
  proof -
    have cut: "(\<Sum>m < n. ls ! p ! m * ls ! q ! m) = (\<Sum>m < i. ls ! p ! m * ls ! q ! m)"
      using i pq rowk[OF pq(1)] by (intro sum_cut) simp_all
    show ?thesis
    proof (cases "q \<le> p")
      case True
      then show ?thesis using rowk[OF pq(1)] cut by simp
    next
      case False
      then have "p \<le> q" by simp
      then have "(\<Sum>m < n. ls ! q ! m * ls ! p ! m) = A ! q ! p" using rowk[OF pq(2)] by simp
      moreover have "A ! q ! p = A ! p ! q" using sym pq i lA by (simp add: symmetric_def)
      ultimately have "(\<Sum>m < n. ls ! p ! m * ls ! q ! m) = A ! p ! q"
        by (simp add: mult.commute)
      then show ?thesis using cut by simp
    qed
  qed
  have blk_row: "A ! i ! q = (\<Sum>m < i. l ! m * ls ! q ! m)" if q: "q < i" for q
  proof -
    have "(\<Sum>m < i. ls ! q ! m * l ! m) = (\<Sum>m < Suc q. ls ! q ! m * l ! m)"
      using q rowk[OF q] i by (intro sum_cut) simp_all
    also have "\<dots> = A ! i ! q" using rec[OF q] by simp
    finally show ?thesis by (simp add: mult.commute)
  qed
  have blk_di: "A ! i ! i = (\<Sum>m < i. l ! m * l ! m) + d"
    using ll by (simp add: d_def dot_sum)
  have blk: "A ! p ! q = (\<Sum>m < i. Lf p m * Lf q m) + (if p = i \<and> q = i then d else 0)"
    if pq: "p < Suc i" "q < Suc i" for p q
  proof (cases "p < i")
    case p: True
    show ?thesis
    proof (cases "q < i")
      case True
      then show ?thesis using p blk_lo by (simp add: Lf_def)
    next
      case False
      then have qi: "q = i" using pq by simp
      have "A ! p ! i = A ! i ! p" using sym p i lA by (simp add: symmetric_def)
      then show ?thesis using p qi blk_row[OF p] by (simp add: Lf_def mult.commute)
    qed
  next
    case False
    then have pi: "p = i" using pq by simp
    show ?thesis
    proof (cases "q < i")
      case True
      then show ?thesis using pi blk_row[OF True] by (simp add: Lf_def)
    next
      case False
      then have "q = i" using pq by simp
      then show ?thesis using pi blk_di by (simp add: Lf_def)
    qed
  qed
  have col0: "(\<Sum>p < Suc i. Lf p m * x ! p) = 0" if m: "m < i" for m
  proof -
    have "(\<Sum>p < i. Lf p m * x ! p) = (\<Sum>p < i. ls ! p ! m * z ! p)"
      by (intro sum.cong) (simp_all add: Lf_def xlo)
    then show ?thesis using zsol[OF m] xi by (simp add: Lf_def)
  qed
  have "quad_form A x = (\<Sum>p < n. \<Sum>q < n. x ! p * A ! p ! q * x ! q)"
    by (rule quad_sum[OF lA rows lx])
  also have "\<dots> = (\<Sum>p < n. \<Sum>q < Suc i. x ! p * A ! p ! q * x ! q)"
    using i by (intro sum.cong refl sum_cut) (simp_all add: xhi)
  also have "\<dots> = (\<Sum>p < Suc i. \<Sum>q < Suc i. x ! p * A ! p ! q * x ! q)"
    using i by (intro sum_cut) (simp_all add: xhi)
  also have "\<dots> = (\<Sum>p < Suc i. \<Sum>q < Suc i.
        x ! p * (\<Sum>m < i. Lf p m * Lf q m) * x ! q
        + x ! p * (if p = i \<and> q = i then d else 0) * x ! q)"
    by (intro sum.cong refl) (simp add: blk algebra_simps)
  also have "\<dots> = (\<Sum>p < Suc i. \<Sum>q < Suc i. x ! p * (\<Sum>m < i. Lf p m * Lf q m) * x ! q)
        + (\<Sum>p < Suc i. \<Sum>q < Suc i. x ! p * (if p = i \<and> q = i then d else 0) * x ! q)"
    by (simp only: sum.distrib)
  also have "\<dots> = (\<Sum>m < i. (\<Sum>p < Suc i. Lf p m * x ! p)\<^sup>2) + x ! i * d * x ! i"
    by (simp only: gram_quad corner_sum)
  also have "\<dots> = d"
    using col0 xi by simp
  finally have "quad_form A x = d" .
  moreover have "0 < quad_form A x"
    using pd lx xnz lA by (simp add: positive_definite_def)
  ultimately show ?thesis by (simp add: d_def)
qed

lemma chol_loop_complete:
  assumes "chol_inv n A ls" "rest = drop (length ls) A"
    and lA: "length A = n" and rows: "\<forall>k < n. length (A ! k) = n"
    and sym: "symmetric A" and pd: "positive_definite A"
  shows "\<exists>L. chol_loop n ls rest = Inr L"
  using assms(1,2)
proof (induction rest arbitrary: ls)
  case Nil
  then show ?case by simp
next
  case (Cons ai rest)
  let ?i = "length ls"
  have i: "?i < n" using Cons.prems(2) lA by (metis drop_eq_Nil2 leI list.distinct(1))
  have ai: "ai = A ! ?i" and rest: "rest = drop (Suc ?i) A"
    using Cons.prems(2) i lA by (metis Cons_nth_drop_Suc list.inject)+
  let ?l = "chol_offdiag ls ai"
  let ?d = "ai ! ?i - dot ?l ?l"
  have pos: "0 < ?d"
    using pivot_positive[OF Cons.prems(1) refl i lA rows sym pd, of ?l] ai by simp
  let ?ls = "ls @ [?l @ [sqrt ?d] @ replicate (n - ?i - 1) 0]"
  have la: "length (A ! ?i) = n" using rows i by simp
  have inv: "chol_inv n A ?ls"
    using chol_inv_step[OF Cons.prems(1) refl i la, of ?l ?d] pos ai by simp
  obtain L where "chol_loop n ?ls rest = Inr L"
    using Cons.IH[OF inv] rest by auto
  then show ?case using pos by (simp add: Let_def)
qed

lemma square_rows: "square A \<Longrightarrow> \<forall>k < length A. length (A ! k) = length A"
  by (simp add: square_def list_all_length)

lemma cholesky_complete:
  assumes "square A" "symmetric A" "positive_definite A"
  shows "\<exists>L. np_linalg_cholesky A = Inr L"
proof -
  have "\<exists>L. chol_loop (length A) [] A = Inr L"
    by (rule chol_loop_complete[OF chol_inv_Nil _ refl square_rows[OF assms(1)] assms(2,3)]) simp
  then show ?thesis using assms(1) by (simp add: np_linalg_cholesky_def)
qed

lemma cholesky_error:
  assumes "square A" "np_linalg_cholesky A = Inl e"
  shows "e = not_positive_definite"
  using assms chol_loop_error by (simp add: np_linalg_cholesky_def)

lemma cholesky_factor:
  assumes "np_linalg_cholesky A = Inr L" "symmetric A"
  shows "lower_factor (length A) L"
    and "\<forall>k < length A. \<forall>j < length A. (\<Sum>m < length A. L ! k ! m * L ! j ! m) = A ! k ! j"
    and "positive_definite A"
proof -
  have sq: "square A" using assms(1) by (auto simp: np_linalg_cholesky_def split: if_splits)
  have s: "lower_factor (length A) L"
    "\<forall>k < length A. \<forall>j \<le> k. (\<Sum>m < length A. L ! k ! m * L ! j ! m) = A ! k ! j"
    using cholesky_sound[OF assms(1) refl] by simp_all
  show "lower_factor (length A) L" by (rule s(1))
  show full: "\<forall>k < length A. \<forall>j < length A. (\<Sum>m < length A. L ! k ! m * L ! j ! m) = A ! k ! j"
    by (rule factor_full[OF s assms(2) refl])
  show "positive_definite A"
    by (rule factor_pd[OF s(1) full refl square_rows[OF sq]])
qed

lemma normal_equations:
  fixes L M :: mat and z theta b :: vec
  assumes full: "\<forall>k < n. \<forall>j < n. (\<Sum>m < n. L ! k ! m * L ! j ! m) = M ! k ! j"
    and fw: "\<forall>i < n. (\<Sum>m < n. L ! i ! m * z ! m) = b ! i"
    and bw: "\<forall>i < n. (\<Sum>m < n. L ! m ! i * theta ! m) = z ! i"
    and i: "i < n"
  shows "(\<Sum>j < n. M ! i ! j * theta ! j) = b ! i"
proof -
  have "(\<Sum>j < n. M ! i ! j * theta ! j) = (\<Sum>j < n. (\<Sum>m < n. L ! i ! m * L ! j ! m) * theta ! j)"
    using full i by simp
  also have "\<dots> = (\<Sum>j < n. \<Sum>m < n. L ! i ! m * (L ! j ! m * theta ! j))"
    by (simp add: sum_distrib_right mult.assoc)
  also have "\<dots> = (\<Sum>m < n. \<Sum>j < n. L ! i ! m * (L ! j ! m * theta ! j))"
    by (rule sum.swap)
  also have "\<dots> = (\<Sum>m < n. L ! i ! m * (\<Sum>j < n. L ! j ! m * theta ! j))"
    by (simp add: sum_distrib_left)
  also have "\<dots> = (\<Sum>m < n. L ! i ! m * z ! m)"
    using bw by simp
  finally show ?thesis using fw i by simp
qed

text \<open>The Cholesky solution for a positive-definite system, as \<^verbatim>\<open>lr_norm.py\<close> computes it.\<close>

lemma norm_solution:
  assumes sq: "square M" and sym: "symmetric M" and pd: "positive_definite M"
    and b: "length b = length M"
  shows "\<exists>L z theta.
       np_linalg_cholesky M = Inr L \<and> lower_factor (length M) L
     \<and> (\<forall>i < length M. \<forall>j < length M. dot (L ! i) (L ! j) = M ! i ! j)
     \<and> np_linalg_solve L b = Inr z
     \<and> (\<forall>i < length M. dot (L ! i) z = b ! i)
     \<and> np_linalg_solve (np_transpose L) z = Inr theta
     \<and> (\<forall>i < length M. dot (np_transpose L ! i) theta = z ! i)
     \<and> LinearRegression_cholesky_solution
           \<lparr>DIMENSION = d, BIAS = bi, x_t_x = M, x_t_y = b, counts = c\<rparr> = Inr theta
     \<and> length theta = length M
     \<and> (\<forall>i < length M. dot (M ! i) theta = b ! i)"
proof -
  let ?n = "length M"
  obtain L where L: "np_linalg_cholesky M = Inr L"
    using cholesky_complete[OF sq sym pd] by blast
  note F = cholesky_factor[OF L sym]
  have lL: "length L = ?n" and lr: "\<forall>i < ?n. length (L ! i) = ?n"
    using F(1) by (auto simp: lower_factor_def)
  note T = transpose_nth[OF lL lr]
  obtain z where z: "np_linalg_solve L b = Inr z" "length z = ?n"
    "\<forall>i < ?n. (\<Sum>m < ?n. L ! i ! m * z ! m) = b ! i"
    using solve_lower[OF F(1) b] by blast
  obtain theta where t: "np_linalg_solve (np_transpose L) z = Inr theta" "length theta = ?n"
    "\<forall>i < ?n. (\<Sum>m < ?n. L ! m ! i * theta ! m) = z ! i"
    using solve_upper[OF F(1) z(2)] by blast
  have 1: "\<forall>i < ?n. \<forall>j < ?n. dot (L ! i) (L ! j) = M ! i ! j"
    using F(2) lr by (simp add: dot_sum_n)
  have 2: "\<forall>i < ?n. dot (L ! i) z = b ! i"
    using z(2,3) lr by (simp add: dot_sum_n)
  have 3: "\<forall>i < ?n. dot (np_transpose L ! i) theta = z ! i"
    using t(2,3) T by (simp add: dot_sum_n)
  have 4: "\<forall>i < ?n. dot (M ! i) theta = b ! i"
  proof (intro allI impI)
    fix i assume i: "i < ?n"
    have "dot (M ! i) theta = (\<Sum>j < ?n. M ! i ! j * theta ! j)"
      using square_rows[OF sq] i t(2) by (simp add: dot_sum_n)
    then show "dot (M ! i) theta = b ! i"
      using normal_equations[OF F(2) z(3) t(3) i] by simp
  qed
  have 5: "LinearRegression_cholesky_solution
           \<lparr>DIMENSION = d, BIAS = bi, x_t_x = M, x_t_y = b, counts = c\<rparr> = Inr theta"
    using L z(1) t(1) by (simp add: LinearRegression_cholesky_solution_def)
  show ?thesis using L F(1) 1 z(1) 2 t(1) 3 5 t(2) 4 by blast
qed

lemma norm_failure:
  assumes sq: "square M" and sym: "symmetric M" and npd: "\<not> positive_definite M"
  shows "LinearRegression_cholesky_solution
           \<lparr>DIMENSION = d, BIAS = bi, x_t_x = M, x_t_y = b, counts = c\<rparr>
         = Inl not_positive_definite"
proof (cases "np_linalg_cholesky M")
  case (Inl e)
  then show ?thesis
    using cholesky_error[OF sq Inl] by (simp add: LinearRegression_cholesky_solution_def)
next
  case (Inr L)
  then show ?thesis using cholesky_factor(3)[OF Inr sym] npd by simp
qed

lemma damp_symmetric:
  assumes "square A" "symmetric A"
  shows "symmetric (map2 (map2 (+)) A (map (map (\<lambda>e. e * reg)) (np_eye (length A))))"
proof -
  let ?M = "map2 (map2 (+)) A (map (map (\<lambda>e. e * reg)) (np_eye (length A)))"
  have l: "length ?M = length A" by (simp add: np_eye_def)
  have "?M ! i ! j = ?M ! j ! i" if "i < length A" "j < length A" for i j
    using damp_nth[OF assms(1) that] damp_nth[OF assms(1) that(2,1)] assms(2) that
    by (auto simp: symmetric_def)
  then show ?thesis unfolding symmetric_def l by blast
qed

section \<open>The solver in exact arithmetic\<close>

text \<open>
  What the two solvers compute when no operation rounds. float64 rounding is not part of
  the model of \<^verbatim>\<open>np.linalg.cholesky\<close> and \<^verbatim>\<open>np.linalg.solve\<close> above, and LAPACK's order
  of operations, on which the rounded results depend, is not in the repository. The two
  results of this section are therefore about the algorithm and not about the float64
  numbers a run returns: a run's \<open>\<theta>\<close> solves the damped system up to rounding only, and
  in float64 a small damping can be rounded away, which leaves a singular matrix singular.
\<close>

text \<open>
  An instance of the second point: added to \<open>2\<^sup>2\<^sup>2\<close> in float64, every damping below
  \<open>2\<^sup>-\<^sup>3\<^sup>1\<close> is rounded away, \<open>10\<^sup>-\<^sup>1\<^sup>0\<close> among them, and the matrix with all four entries
  \<open>2\<^sup>2\<^sup>2\<close> has no Cholesky factor, although the same matrix with \<open>10\<^sup>-\<^sup>1\<^sup>0\<close> added
  exactly to its diagonal is positive definite.
\<close>

lemma round_even_below_half:
  assumes "0 \<le> r" "r < 1 / 2"
  shows "round_even (of_int n + r) = n"
proof -
  have "\<lfloor>of_int n + r\<rfloor> = n" using assms by (simp add: floor_eq_iff)
  then show ?thesis using assms by (simp add: round_even_def Let_def)
qed

lemma damping_rounded_away:
  assumes "0 \<le> e" "e < 1 / 2 ^ 31"
  shows "fadd (2 ^ 22) e = 2 ^ 22"
proof -
  let ?x = "2 ^ 22 + e"
  have lo: "2 ^ 22 \<le> \<bar>?x\<bar>" using assms by simp
  have hi: "\<bar>?x\<bar> < 2 ^ Suc 22" using assms by simp
  have h: "round64 ?x = of_int (round_even (?x * 2 ^ (52 - 22))) / 2 ^ (52 - 22)"
    by (rule round64_low[OF lo hi]) simp
  have "?x * 2 ^ (52 - 22) = of_int (2 ^ 52) + e * 2 ^ 30" by (simp add: algebra_simps)
  moreover have "0 \<le> e * 2 ^ 30" "e * 2 ^ 30 < 1 / 2" using assms by simp_all
  ultimately have "round_even (?x * 2 ^ (52 - 22)) = 2 ^ 52"
    using round_even_below_half[of "e * 2 ^ 30" "2 ^ 52"] by (simp only:)
  then show ?thesis unfolding fadd_def h by simp
qed

lemma damping_example: "fadd (2 ^ 22) (1 / 10 ^ 10) = 2 ^ 22"
  by (rule damping_rounded_away) simp_all

lemma sqrt_2p22: "sqrt (2 ^ 22) = 2 ^ 11"
  by (rule real_sqrt_unique) simp_all

lemma singular_example:
  "np_linalg_cholesky [[2 ^ 22, 2 ^ 22], [2 ^ 22, 2 ^ 22]] = Inl not_positive_definite"
proof -
  have "chol_offdiag [[sqrt (2 ^ 22), 0]] [2 ^ 22, 2 ^ 22] = [2 ^ 11]"
    unfolding sqrt_2p22 by (simp add: chol_offdiag_def)
  then show ?thesis
    by (simp add: np_linalg_cholesky_def square_def Let_def chol_offdiag_def dot_def)
qed

lemma mapper_lr_symmetric:
  assumes wf: "wf_lr self" and sym: "symmetric (x_t_x self)"
  shows "symmetric (x_t_x (snd (mapper_lr to_float self line)))"
proof (cases "fst (mapper_lr to_float self line) = None")
  case False
  then show ?thesis using wf_fail_unchanged[OF wf] sym by simp
next
  case True
  show ?thesis
  proof (cases "extract_variables to_float line")
    case (Inl e)
    then show ?thesis using sym by (simp add: mapper_lr_def)
  next
    case (Inr p)
    obtain y fs where p: "p = (y, fs)" by (cases p)
    show ?thesis
    proof (cases "length fs = DIMENSION self")
      case False
      then show ?thesis using Inr p sym by (simp add: mapper_lr_def)
    next
      case len: True
      let ?x = "if BIAS self then fs @ [1] else fs"
      let ?s = "self\<lparr>x_t_x := map2 (map2 (+)) (x_t_x self) (np_outer ?x ?x),
                       x_t_y := map2 (+) (x_t_y self) (smul y ?x),
                       counts := counts self + 1\<rparr>"
      have lx: "length ?x = dim_n self" using len by (simp add: dim_n_def)
      have s: "snd (mapper_lr to_float self line) = ?s"
        unfolding mapper_lr_ok[OF wf Inr[unfolded p] len] by simp
      note U = update_entries[OF wf lx refl, of y]
      have n: "length (x_t_x self) = dim_n self" "length (x_t_x ?s) = dim_n self"
        using wf U(1) by (simp_all add: wf_lr_def dim_n_def)
      have "x_t_x ?s ! i ! j = x_t_x ?s ! j ! i" if "i < dim_n self" "j < dim_n self" for i j
        using U(2) that sym n by (simp add: symmetric_def mult.commute)
      then show ?thesis unfolding s symmetric_def n by blast
    qed
  qed
qed

lemma for_each_line_symmetric:
  assumes "wf_lr self" "symmetric (x_t_x self)"
  shows "symmetric (x_t_x (snd (for_each_line (mapper_lr to_float) self lines)))"
  using assms
proof (induction lines arbitrary: self)
  case Nil
  then show ?case by simp
next
  case (Cons line lines)
  obtain e1 s1 where m: "mapper_lr to_float self line = (e1, s1)"
    by (cases "mapper_lr to_float self line")
  have w: "wf_lr s1" using mapper_lr_wf[OF Cons.prems(1), of to_float line] m by simp
  have s: "symmetric (x_t_x s1)"
    using mapper_lr_symmetric[OF Cons.prems, of to_float line] m by simp
  show ?case
  proof (cases e1)
    case None
    then show ?thesis using m Cons.IH[OF w s] by simp
  next
    case (Some a)
    then show ?thesis using m s by simp
  qed
qed

lemma symmetric_zeros: "symmetric (np_zeros2 n n)"
  by (simp add: symmetric_def np_zeros2_def)

lemma symmetric_init: "symmetric (x_t_x (LinearRegression_init d b))"
  using symmetric_zeros by (simp add: LinearRegression_init_def Let_def)

text \<open>
  Every statistic the accumulation produces is square and symmetric, with a vector of
  the same length.
\<close>

lemma accumulated_statistic:
  assumes "s = snd (for_each_line (mapper_lr to_float) (LinearRegression_init d b) lines)"
  shows "square (x_t_x s) \<and> symmetric (x_t_x s) \<and> length (x_t_y s) = length (x_t_x s)"
proof -
  have "wf_lr s" using for_each_line_wf[OF wf_init[of d b], of to_float lines] assms by simp
  moreover have "symmetric (x_t_x s)"
    using for_each_line_symmetric[OF wf_init[of d b] symmetric_init[of d b], of to_float lines]
      assms by simp
  ultimately show ?thesis by (simp add: wf_lr_def square_def)
qed

text \<open>
  In exact arithmetic: let \<open>A\<close> be square and symmetric and \<open>b\<close> of its length, and
  let \<open>M\<close> be \<open>A\<close> with \<open>regularization\<close> added to its diagonal, as the solver of
  \<^verbatim>\<open>lr.py\<close> leaves it. If \<open>M\<close> is positive definite, \<^verbatim>\<open>np.linalg.cholesky\<close> returns a
  lower-triangular \<open>L\<close> with \<open>L L\<^sup>T = M\<close>, the first \<^verbatim>\<open>np.linalg.solve\<close> returns \<open>z\<close>
  with \<open>L z = b\<close>, the second returns \<open>\<theta>\<close> with \<open>L\<^sup>T \<theta> = z\<close>, and the solver returns
  this \<open>\<theta>\<close>, of length \<open>n\<close>, with \<open>M \<theta> = b\<close>. The solver of \<^verbatim>\<open>lr_norm.py\<close> returns the
  same \<open>\<theta>\<close> when the matrix it holds is \<open>M\<close>: it does all this for its own
  \<^verbatim>\<open>x_t_x\<close>, with nothing added.
\<close>

lemma exact_cholesky_solution:
  assumes "square A" and "symmetric A" and "length b = length A"
    and "M = snd (cholesky_solution_linear_regression A b reg)"
    and "positive_definite M"
  shows "(\<forall>i < length A. \<forall>j < length A. M ! i ! j = A ! i ! j + (if i = j then reg else 0))
     \<and> (\<exists>L z theta.
           np_linalg_cholesky M = Inr L \<and> lower_factor (length A) L
         \<and> (\<forall>i < length A. \<forall>j < length A. dot (L ! i) (L ! j) = M ! i ! j)
         \<and> np_linalg_solve L b = Inr z
         \<and> (\<forall>i < length A. dot (L ! i) z = b ! i)
         \<and> np_linalg_solve (np_transpose L) z = Inr theta
         \<and> (\<forall>i < length A. dot (np_transpose L ! i) theta = z ! i)
         \<and> fst (cholesky_solution_linear_regression A b reg) = Inr theta
         \<and> LinearRegression_cholesky_solution
               \<lparr>DIMENSION = d, BIAS = bi, x_t_x = M, x_t_y = b, counts = c\<rparr> = Inr theta
         \<and> length theta = length A
         \<and> (\<forall>i < length A. dot (M ! i) theta = b ! i))"
proof -
  let ?M = "map2 (map2 (+)) A (map (map (\<lambda>e. e * reg)) (np_eye (length A)))"
  have M: "M = ?M"
    unfolding assms(4) chol_sol_damped[OF assms(1), of b reg d bi c] by simp
  have lM: "length M = length A" unfolding M by (simp add: np_eye_def)
  have sq: "square M" unfolding M by (rule damp_square[OF assms(1)])
  have sym: "symmetric M" unfolding M by (rule damp_symmetric[OF assms(1,2)])
  have ent: "\<forall>i < length A. \<forall>j < length A. M ! i ! j = A ! i ! j + (if i = j then reg else 0)"
    unfolding M using damp_nth[OF assms(1)] by blast
  have fs: "fst (cholesky_solution_linear_regression A b reg)
      = LinearRegression_cholesky_solution
           \<lparr>DIMENSION = d, BIAS = bi, x_t_x = M, x_t_y = b, counts = c\<rparr>"
    unfolding M chol_sol_damped[OF assms(1), of b reg d bi c] by simp
  have b: "length b = length M" using assms(3) lM by simp
  show ?thesis
    using norm_solution[OF sq sym assms(5) b, of d bi c] ent unfolding fs lM by blast
qed

text \<open>
  In exact arithmetic, with \<open>A\<close>, \<open>b\<close> and \<open>M\<close> as before: if \<open>M\<close> is not positive
  definite the solver of \<^verbatim>\<open>lr.py\<close> raises \<^verbatim>\<open>LinAlgError\<close> (\<^verbatim>\<open>Matrix is not positive
  definite\<close>) and returns nothing; if \<open>M\<close> is positive definite it returns a vector. The
  solver of \<^verbatim>\<open>lr_norm.py\<close> does the same for the matrix it holds.
\<close>

lemma exact_cholesky_failure:
  assumes "square A" and "symmetric A" and "length b = length A"
    and "M = snd (cholesky_solution_linear_regression A b reg)"
  shows "(\<not> positive_definite M \<longrightarrow>
            fst (cholesky_solution_linear_regression A b reg)
              = Inl (LinAlgError ''Matrix is not positive definite'')
          \<and> LinearRegression_cholesky_solution
               \<lparr>DIMENSION = d, BIAS = bi, x_t_x = M, x_t_y = b, counts = c\<rparr>
              = Inl (LinAlgError ''Matrix is not positive definite''))
     \<and> (positive_definite M \<longrightarrow>
            (\<exists>theta. fst (cholesky_solution_linear_regression A b reg) = Inr theta
                \<and> LinearRegression_cholesky_solution
                     \<lparr>DIMENSION = d, BIAS = bi, x_t_x = M, x_t_y = b, counts = c\<rparr>
                    = Inr theta))"
proof -
  let ?M = "map2 (map2 (+)) A (map (map (\<lambda>e. e * reg)) (np_eye (length A)))"
  have M: "M = ?M"
    unfolding assms(4) chol_sol_damped[OF assms(1), of b reg d bi c] by simp
  have lM: "length M = length A" unfolding M by (simp add: np_eye_def)
  have sq: "square M" unfolding M by (rule damp_square[OF assms(1)])
  have sym: "symmetric M" unfolding M by (rule damp_symmetric[OF assms(1,2)])
  have fs: "fst (cholesky_solution_linear_regression A b reg)
      = LinearRegression_cholesky_solution
           \<lparr>DIMENSION = d, BIAS = bi, x_t_x = M, x_t_y = b, counts = c\<rparr>"
    unfolding M chol_sol_damped[OF assms(1), of b reg d bi c] by simp
  have b: "length b = length M" using assms(3) lM by simp
  have 1: "LinearRegression_cholesky_solution
               \<lparr>DIMENSION = d, BIAS = bi, x_t_x = M, x_t_y = b, counts = c\<rparr>
              = Inl (LinAlgError ''Matrix is not positive definite'')"
    if "\<not> positive_definite M"
    using norm_failure[OF sq sym that, of d bi b c] by (simp add: not_positive_definite_def)
  have 2: "\<exists>theta. LinearRegression_cholesky_solution
                     \<lparr>DIMENSION = d, BIAS = bi, x_t_x = M, x_t_y = b, counts = c\<rparr>
                    = Inr theta"
    if "positive_definite M"
    using norm_solution[OF sq sym that b, of d bi c] by blast
  show ?thesis unfolding fs using 1 2 by blast
qed

end
